theory Spec2Isabelle
  imports Main
begin

section \<open>Strings\<close>

text \<open>
  A JavaScript string is a sequence of UTF-16 code units. A code unit is modelled as a
  natural number (every real one is below 65536); the functions below never look at a
  unit except to compare it with the ASCII and Unicode constants of the regular
  expressions, so every statement proved for all lists holds for all strings.
  \<open>js\<close> turns an ASCII literal into such a sequence.
\<close>

type_synonym code_unit = nat
type_synonym jsstring = "code_unit list"

definition js :: "string \<Rightarrow> jsstring" where
  "js s = map of_char s"

text \<open>\<open>String.prototype.slice(start, end)\<close>: negative arguments count from the end,
  both are clamped to the string, and an end before the start gives the empty string.\<close>

definition slice :: "jsstring \<Rightarrow> int \<Rightarrow> int \<Rightarrow> jsstring" where
  "slice s start end' =
     (let len = int (length s);
          from = (if start < 0 then max (len + start) 0 else min start len);
          to = (if end' < 0 then max (len + end') 0 else min end' len)
      in take (nat (to - from)) (drop (nat from) s))"

fun startsWith :: "jsstring \<Rightarrow> jsstring \<Rightarrow> bool" where
  "startsWith s [] = True"
| "startsWith [] (y # ys) = False"
| "startsWith (x # xs) (y # ys) = (x = y \<and> startsWith xs ys)"

text \<open>\<open>String.prototype.includes(t)\<close>: \<open>t\<close> occurs somewhere in \<open>s\<close>.\<close>

fun includes_str :: "jsstring \<Rightarrow> jsstring \<Rightarrow> bool" where
  "includes_str [] t = (t = [])"
| "includes_str (x # xs) t = (startsWith (x # xs) t \<or> includes_str xs t)"

text \<open>\<open>String.prototype.toLowerCase\<close> on the ASCII letters (the only strings the
  code lowers are the five verb names).\<close>

definition lowerUnit :: "code_unit \<Rightarrow> code_unit" where
  "lowerUnit c = (if 65 \<le> c \<and> c \<le> 90 then c + 32 else c)"

definition upperUnit :: "code_unit \<Rightarrow> code_unit" where
  "upperUnit c = (if 97 \<le> c \<and> c \<le> 122 then c - 32 else c)"

definition toLowerCase :: "jsstring \<Rightarrow> jsstring" where
  "toLowerCase s = map lowerUnit s"

section \<open>Regular expressions\<close>

text \<open>
  The patterns of \<open>parser.ts\<close> are sequences of single characters and character
  classes, each taken once or under a greedy \<open>*\<close> or \<open>+\<close>, some of them inside a
  capturing group, with one \<open>^\<close> (under the \<open>m\<close> flag) in front of the package
  pattern. The matcher is the backtracking matcher of ECMAScript restricted to these
  forms: a greedy quantifier first tries one more repetition and falls back to the rest
  of the pattern when that fails.
\<close>

datatype cls =
    Chr code_unit      \<comment> \<open>a literal character\<close>
  | ChrI code_unit     \<comment> \<open>a literal character of a pattern with the \<open>i\<close> flag\<close>
  | Space              \<comment> \<open>\<open>\s\<close>\<close>
  | Word               \<comment> \<open>\<open>\w\<close>\<close>
  | WordDot            \<comment> \<open>\<open>[\w.]\<close>\<close>
  | Quote              \<comment> \<open>\<open>["']\<close>\<close>
  | NotQuote           \<comment> \<open>\<open>[^"']\<close>\<close>

datatype quant = Once | ZeroOrMore | OneOrMore

datatype node =
    LineStart                \<comment> \<open>\<open>^\<close> with the \<open>m\<close> flag\<close>
  | Rep bool cls quant       \<comment> \<open>a quantified class; the flag says it is a capturing group\<close>

text \<open>\<open>\s\<close> is WhiteSpace and LineTerminator of ECMAScript: tab, LF, VT, FF, CR, space,
  U+00A0, U+1680, U+2000 to U+200A, U+2028, U+2029, U+202F, U+205F, U+3000, U+FEFF.\<close>

definition isSpace :: "code_unit \<Rightarrow> bool" where
  "isSpace c = ((9 \<le> c \<and> c \<le> 13) \<or> c = 32 \<or> c = 160 \<or> c = 5760
     \<or> (8192 \<le> c \<and> c \<le> 8202) \<or> c = 8232 \<or> c = 8233 \<or> c = 8239 \<or> c = 8287
     \<or> c = 12288 \<or> c = 65279)"

text \<open>\<open>\w\<close> is \<open>[A-Za-z0-9_]\<close>.\<close>

definition isWord :: "code_unit \<Rightarrow> bool" where
  "isWord c = ((65 \<le> c \<and> c \<le> 90) \<or> (97 \<le> c \<and> c \<le> 122) \<or> (48 \<le> c \<and> c \<le> 57) \<or> c = 95)"

definition isQuote :: "code_unit \<Rightarrow> bool" where
  "isQuote c = (c = 34 \<or> c = 39)"

text \<open>LineTerminator: LF, CR, U+2028, U+2029.\<close>

definition isLineTerminator :: "code_unit \<Rightarrow> bool" where
  "isLineTerminator c = (c = 10 \<or> c = 13 \<or> c = 8232 \<or> c = 8233)"

text \<open>Under the \<open>i\<close> flag (without \<open>u\<close>) two characters match when their
  canonical forms agree; the canonical form of a character is its upper case, except
  that a character outside ASCII never maps into ASCII. For a pattern character in
  ASCII that leaves its two ASCII cases. The classes \<open>\s\<close>, \<open>["']\<close> and \<open>[^"']\<close>
  hold no cased character, so the flag leaves them as they are.\<close>

fun cls_match :: "cls \<Rightarrow> code_unit \<Rightarrow> bool" where
  "cls_match (Chr c) x = (x = c)"
| "cls_match (ChrI c) x = (upperUnit x = upperUnit c)"
| "cls_match Space x = isSpace x"
| "cls_match Word x = isWord x"
| "cls_match WordDot x = (isWord x \<or> x = 46)"
| "cls_match Quote x = isQuote x"
| "cls_match NotQuote x = (\<not> isQuote x)"

text \<open>The result of a match from a position: the captured groups, in the order of
  the pattern, and the input left after the match.\<close>

type_synonym partial_match = "jsstring list \<times> jsstring"

definition openGroup :: "bool \<Rightarrow> partial_match option \<Rightarrow> partial_match option" where
  "openGroup g r = (if g then map_option (\<lambda>(caps, rest). ([] # caps, rest)) r else r)"

fun extendGroup :: "bool \<Rightarrow> code_unit \<Rightarrow> partial_match \<Rightarrow> partial_match" where
  "extendGroup False x (caps, rest) = (caps, rest)"
| "extendGroup True x ([], rest) = ([[x]], rest)"
| "extendGroup True x (c # caps, rest) = ((x # c) # caps, rest)"

text \<open>\<open>matchHere ns prev s\<close> matches the pattern \<open>ns\<close> at the start of \<open>s\<close>;
  \<open>prev\<close> is the character before \<open>s\<close> in the whole input, if any.\<close>

fun matchHere :: "node list \<Rightarrow> code_unit option \<Rightarrow> jsstring \<Rightarrow> partial_match option" where
  "matchHere [] prev s = Some ([], s)"
| "matchHere (LineStart # ns) prev s =
     (case prev of
        None \<Rightarrow> matchHere ns prev s
      | Some p \<Rightarrow> if isLineTerminator p then matchHere ns prev s else None)"
| "matchHere (Rep g c Once # ns) prev [] = None"
| "matchHere (Rep g c Once # ns) prev (x # xs) =
     (if cls_match c x
      then map_option (extendGroup g x) (openGroup g (matchHere ns (Some x) xs))
      else None)"
| "matchHere (Rep g c ZeroOrMore # ns) prev [] = openGroup g (matchHere ns prev [])"
| "matchHere (Rep g c ZeroOrMore # ns) prev (x # xs) =
     (if cls_match c x
      then (case matchHere (Rep g c ZeroOrMore # ns) (Some x) xs of
              Some r \<Rightarrow> Some (extendGroup g x r)
            | None \<Rightarrow> openGroup g (matchHere ns prev (x # xs)))
      else openGroup g (matchHere ns prev (x # xs)))"
| "matchHere (Rep g c OneOrMore # ns) prev [] = None"
| "matchHere (Rep g c OneOrMore # ns) prev (x # xs) =
     (if cls_match c x
      then map_option (extendGroup g x) (matchHere (Rep g c ZeroOrMore # ns) (Some x) xs)
      else None)"

text \<open>A successful match, as \<open>RegExp.prototype.exec\<close> and
  \<open>String.prototype.match\<close> return it: \<open>match.index\<close>, \<open>match[0]\<close> and the
  captured groups \<open>match[1]\<close>, \<open>match[2]\<close>, ...\<close>

record RegExpMatch =
  index :: nat
  whole :: jsstring
  groups :: "jsstring list"

text \<open>\<open>match[k]\<close>. Every pattern below has the groups its caller reads; beyond
  them JavaScript gives \<open>undefined\<close>, which no caller meets.\<close>

definition group :: "RegExpMatch \<Rightarrow> nat \<Rightarrow> jsstring" where
  "group m k = (if k = 0 then whole m else if k \<le> length (groups m) then groups m ! (k - 1) else [])"

text \<open>The leftmost match at or after position \<open>i\<close>: \<open>s\<close> is the input from \<open>i\<close> on
  and \<open>prev\<close> the character before it. The empty suffix is tried too.\<close>

fun searchAt :: "node list \<Rightarrow> nat \<Rightarrow> code_unit option \<Rightarrow> jsstring \<Rightarrow> RegExpMatch option" where
  "searchAt re i prev s =
     (case matchHere re prev s of
        Some (caps, rest) \<Rightarrow>
          Some \<lparr>index = i, whole = take (length s - length rest) s, groups = caps\<rparr>
      | None \<Rightarrow> (case s of [] \<Rightarrow> None | x # xs \<Rightarrow> searchAt re (Suc i) (Some x) xs))"

text \<open>\<open>re.exec(s)\<close> for a pattern with the \<open>g\<close> flag whose \<open>lastIndex\<close> is
  \<open>lastIndex\<close>: nothing is found beyond the end of the input; after a match the
  caller's next \<open>lastIndex\<close> is \<open>index + match[0].length\<close>.\<close>

definition regexExec :: "node list \<Rightarrow> jsstring \<Rightarrow> nat \<Rightarrow> RegExpMatch option" where
  "regexExec re s lastIndex =
     (if length s < lastIndex then None
      else searchAt re lastIndex (if lastIndex = 0 then None else Some (s ! (lastIndex - 1)))
             (drop lastIndex s))"

text \<open>\<open>s.match(re)\<close> for a pattern without the \<open>g\<close> flag: the leftmost match.\<close>

definition stringMatch :: "jsstring \<Rightarrow> node list \<Rightarrow> RegExpMatch option" where
  "stringMatch s re = regexExec re s 0"

text \<open>The patterns of the parser.\<close>

definition lit :: "jsstring \<Rightarrow> node list" where
  "lit s = map (\<lambda>c. Rep False (Chr c) Once) s"

definition litI :: "jsstring \<Rightarrow> node list" where
  "litI s = map (\<lambda>c. Rep False (ChrI c) Once) s"

text \<open>\<^verbatim>\<open>/^\s*package\s+([\w.]+)\s*;/m\<close>\<close>

definition packageRegex :: "node list" where
  "packageRegex =
     [LineStart, Rep False Space ZeroOrMore] @ lit (js ''package'')
     @ [Rep False Space OneOrMore, Rep True WordDot OneOrMore, Rep False Space ZeroOrMore]
     @ lit (js '';'')"

text \<open>\<^verbatim>\<open>/service\s+(\w+)\s*\{/g\<close>\<close>

definition serviceRegex :: "node list" where
  "serviceRegex =
     lit (js ''service'')
     @ [Rep False Space OneOrMore, Rep True Word OneOrMore, Rep False Space ZeroOrMore]
     @ lit (js ''{'')"

text \<open>\<^verbatim>\<open>/rpc\s+(\w+)\s*\(\s*(\w+)\s*\)\s*returns\s*\(\s*([\w.]+)\s*\)\s*\{/g\<close>\<close>

definition rpcStartRegex :: "node list" where
  "rpcStartRegex =
     lit (js ''rpc'')
     @ [Rep False Space OneOrMore, Rep True Word OneOrMore, Rep False Space ZeroOrMore]
     @ lit (js ''('')
     @ [Rep False Space ZeroOrMore, Rep True Word OneOrMore, Rep False Space ZeroOrMore]
     @ lit (js '')'')
     @ [Rep False Space ZeroOrMore]
     @ lit (js ''returns'')
     @ [Rep False Space ZeroOrMore]
     @ lit (js ''('')
     @ [Rep False Space ZeroOrMore, Rep True WordDot OneOrMore, Rep False Space ZeroOrMore]
     @ lit (js '')'')
     @ [Rep False Space ZeroOrMore]
     @ lit (js ''{'')"

text \<open>\<^verbatim>\<open>new RegExp(`${methodLower}\\s*:\\s*["']([^"']+)["']`, "i")\<close>\<close>

definition pathRegex :: "jsstring \<Rightarrow> node list" where
  "pathRegex methodLower =
     litI methodLower
     @ [Rep False Space ZeroOrMore] @ litI (js '':'')
     @ [Rep False Space ZeroOrMore, Rep False Quote Once, Rep True NotQuote OneOrMore,
        Rep False Quote Once]"

text \<open>\<^verbatim>\<open>/body\s*:\s*["']([^"']+)["']/\<close>\<close>

definition bodyRegex :: "node list" where
  "bodyRegex =
     lit (js ''body'')
     @ [Rep False Space ZeroOrMore] @ lit (js '':'')
     @ [Rep False Space ZeroOrMore, Rep False Quote Once, Rep True NotQuote OneOrMore,
        Rep False Quote Once]"

section \<open>The service model (types.ts)\<close>

datatype HttpMethod = GET | POST | PUT | PATCH | DELETE

text \<open>The value of the string literal type.\<close>

fun methodString :: "HttpMethod \<Rightarrow> jsstring" where
  "methodString GET = js ''GET''"
| "methodString POST = js ''POST''"
| "methodString PUT = js ''PUT''"
| "methodString PATCH = js ''PATCH''"
| "methodString DELETE = js ''DELETE''"

record ParsedMethod =
  name :: jsstring
  inputType :: jsstring
  outputType :: jsstring
  httpMethod :: HttpMethod
  httpPath :: jsstring
  body :: "jsstring option"

record ParsedService =
  packageName :: jsstring
  serviceName :: jsstring
  fullName :: jsstring
  methods :: "ParsedMethod list"

section \<open>The parser (parser.ts)\<close>

text \<open>The interfaces \<open>ServiceMatch\<close> (\<open>name\<close>, \<open>body\<close>) and \<open>HttpAnnotation\<close>
  (\<open>method\<close>, \<open>path\<close>, \<open>body\<close>); their fields carry a prefix here, since the
  names are those of \<open>ParsedMethod\<close>. A local variable of the source whose name is a field
  of a record carries a prime.\<close>

record ServiceMatch =
  svcName :: jsstring
  svcBody :: jsstring

record HttpAnnotation =
  annMethod :: HttpMethod
  annPath :: jsstring
  annBody :: "jsstring option"

definition extractPackageName :: "jsstring \<Rightarrow> jsstring" where
  "extractPackageName content =
     (case stringMatch content packageRegex of
        Some match \<Rightarrow> group match 1
      | None \<Rightarrow> [])"

text \<open>The loop of \<open>extractBracedContent\<close>: the value of \<open>i\<close> when it ends.\<close>

function scanBraces :: "jsstring \<Rightarrow> nat \<Rightarrow> nat \<Rightarrow> nat" where
  "scanBraces content i depth =
     (if i < length content \<and> 0 < depth
      then (if content ! i = of_char CHR ''{'' then scanBraces content (i + 1) (depth + 1)
            else if content ! i = of_char CHR ''}'' then scanBraces content (i + 1) (depth - 1)
            else scanBraces content (i + 1) depth)
      else i)"
  by pat_completeness auto
termination
  by (relation "measure (\<lambda>(content, i, depth). length content - i)") auto

declare scanBraces.simps [simp del]

definition extractBracedContent :: "jsstring \<Rightarrow> nat \<Rightarrow> jsstring" where
  "extractBracedContent content startIndex =
     slice content (int startIndex) (int (scanBraces content startIndex 1) - 1)"

text \<open>The \<open>while ((match = serviceRegex.exec(content)) !== null)\<close> loop: its state is
  the pattern's \<open>lastIndex\<close> and the list built so far. \<open>exec\<close> leaves \<open>lastIndex\<close>
  at the end of the match, \<open>match.index + match[0].length\<close>, which is also the
  \<open>startIndex\<close> of the source. The loop ends when no match is left; not returning is the
  value \<open>None\<close>.\<close>

partial_function (option) extractServicesLoop ::
  "jsstring \<Rightarrow> nat \<Rightarrow> ServiceMatch list \<Rightarrow> ServiceMatch list option" where
  "extractServicesLoop content lastIndex services =
     (case regexExec serviceRegex content lastIndex of
        None \<Rightarrow> Some services
      | Some match \<Rightarrow>
          (let serviceName' = group match 1;
               startIndex = index match + length (group match 0);
               body' = extractBracedContent content startIndex
           in extractServicesLoop content (index match + length (group match 0))
                (if body' \<noteq> [] then services @ [\<lparr>svcName = serviceName', svcBody = body'\<rparr>]
                 else services)))"

declare extractServicesLoop.simps [code]

definition extractServices :: "jsstring \<Rightarrow> ServiceMatch list option" where
  "extractServices content = extractServicesLoop content 0 []"

definition httpMethods :: "HttpMethod list" where
  "httpMethods = [GET, POST, PUT, PATCH, DELETE]"

text \<open>The \<open>for (const method of httpMethods)\<close> loop, which returns at the first verb
  whose pattern matches.\<close>

fun parseHttpAnnotationLoop :: "HttpMethod list \<Rightarrow> jsstring \<Rightarrow> HttpAnnotation option" where
  "parseHttpAnnotationLoop [] optionsBlock = None"
| "parseHttpAnnotationLoop (method # rest) optionsBlock =
     (let methodLower = toLowerCase (methodString method) in
      case stringMatch optionsBlock (pathRegex methodLower) of
        Some pathMatch \<Rightarrow>
          Some \<lparr>annMethod = method, annPath = group pathMatch 1,
                annBody = (case stringMatch optionsBlock bodyRegex of
                             Some bodyMatch \<Rightarrow> Some (group bodyMatch 1)
                           | None \<Rightarrow> None)\<rparr>
      | None \<Rightarrow> parseHttpAnnotationLoop rest optionsBlock)"

definition parseHttpAnnotation :: "jsstring \<Rightarrow> HttpAnnotation option" where
  "parseHttpAnnotation optionsBlock =
     (if \<not> includes_str optionsBlock (js ''google.api.http'') then None
      else parseHttpAnnotationLoop httpMethods optionsBlock)"

text \<open>The \<open>while ((match = rpcStartRegex.exec(serviceBody)) !== null)\<close> loop.\<close>

partial_function (option) extractMethodsLoop ::
  "jsstring \<Rightarrow> nat \<Rightarrow> ParsedMethod list \<Rightarrow> ParsedMethod list option" where
  "extractMethodsLoop serviceBody lastIndex methods' =
     (case regexExec rpcStartRegex serviceBody lastIndex of
        None \<Rightarrow> Some methods'
      | Some match \<Rightarrow>
          (let methodName = group match 1;
               inputType' = group match 2;
               outputType' = group match 3;
               startIndex = index match + length (group match 0);
               optionsBlock = extractBracedContent serviceBody startIndex
           in extractMethodsLoop serviceBody (index match + length (group match 0))
                (case parseHttpAnnotation optionsBlock of
                   Some httpAnnotation \<Rightarrow>
                     methods' @ [\<lparr>name = methodName, inputType = inputType',
                                 outputType = outputType',
                                 httpMethod = annMethod httpAnnotation,
                                 httpPath = annPath httpAnnotation,
                                 body = annBody httpAnnotation\<rparr>]
                 | None \<Rightarrow> methods')))"

declare extractMethodsLoop.simps [code]

definition extractMethods :: "jsstring \<Rightarrow> ParsedMethod list option" where
  "extractMethods serviceBody = extractMethodsLoop serviceBody 0 []"

text \<open>The \<open>for (const serviceMatch of serviceMatches)\<close> loop of \<open>parseProtoFile\<close>.\<close>

fun parseProtoFileLoop ::
  "jsstring \<Rightarrow> ServiceMatch list \<Rightarrow> ParsedService list \<Rightarrow> ParsedService list option" where
  "parseProtoFileLoop packageName' [] services = Some services"
| "parseProtoFileLoop packageName' (serviceMatch # rest) services =
     (case extractMethods (svcBody serviceMatch) of
        None \<Rightarrow> None
      | Some methods' \<Rightarrow>
          parseProtoFileLoop packageName' rest
            (if 0 < length methods'
             then services @ [\<lparr>packageName = packageName',
                                serviceName = svcName serviceMatch,
                                fullName = (if packageName' \<noteq> []
                                            then packageName' @ js ''.'' @ svcName serviceMatch
                                            else svcName serviceMatch),
                                methods = methods'\<rparr>]
             else services))"

definition parseProtoFile :: "jsstring \<Rightarrow> ParsedService list option" where
  "parseProtoFile content =
     (case extractServices content of
        None \<Rightarrow> None
      | Some serviceMatches \<Rightarrow>
          parseProtoFileLoop (extractPackageName content) serviceMatches [])"

text \<open>An exception thrown by the engine is a value of the result.\<close>

datatype error = RangeError

text \<open>The \<open>for (const content of files)\<close> loop of \<open>parseProtoFiles\<close>. The call
  \<open>allServices.push(...services)\<close> passes every element of \<open>services\<close> as an argument
  of its own. The number of arguments a call can take is bounded by the engine, not by
  the source: \<open>maxArguments\<close> is that bound, and the call throws \<open>RangeError\<close> when
  \<open>services\<close> has more elements. The exception is not caught, so it ends
  \<open>parseProtoFiles\<close>. Not returning is the value \<open>None\<close>.\<close>

fun parseProtoFilesLoop ::
  "nat \<Rightarrow> jsstring list \<Rightarrow> ParsedService list \<Rightarrow> (error + ParsedService list) option" where
  "parseProtoFilesLoop maxArguments [] allServices = Some (Inr allServices)"
| "parseProtoFilesLoop maxArguments (content # rest) allServices =
     (case parseProtoFile content of
        None \<Rightarrow> None
      | Some services \<Rightarrow>
          if maxArguments < length services then Some (Inl RangeError)
          else parseProtoFilesLoop maxArguments rest (allServices @ services))"

definition parseProtoFiles :: "nat \<Rightarrow> jsstring list \<Rightarrow> (error + ParsedService list) option" where
  "parseProtoFiles maxArguments files = parseProtoFilesLoop maxArguments files []"

definition getConnectPath :: "ParsedService \<Rightarrow> ParsedMethod \<Rightarrow> jsstring" where
  "getConnectPath service method = js ''/'' @ fullName service @ js ''/'' @ name method"

section \<open>Definitions used in the proofs\<close>

text \<open>The least number of characters a pattern consumes.\<close>

fun minLen :: "node list \<Rightarrow> nat" where
  "minLen [] = 0"
| "minLen (LineStart # ns) = minLen ns"
| "minLen (Rep g c ZeroOrMore # ns) = minLen ns"
| "minLen (Rep g c Once # ns) = Suc (minLen ns)"
| "minLen (Rep g c OneOrMore # ns) = Suc (minLen ns)"

text \<open>The number of capturing groups of a pattern.\<close>

fun groupCount :: "node list \<Rightarrow> nat" where
  "groupCount [] = 0"
| "groupCount (LineStart # ns) = groupCount ns"
| "groupCount (Rep g c q # ns) = (if g then Suc (groupCount ns) else groupCount ns)"

text \<open>The character before position \<open>k\<close> of a text whose own predecessor is
  \<open>prev\<close>: what \<open>^\<close> looks at when a match is tried at \<open>k\<close>.\<close>

definition prevUnit :: "code_unit option \<Rightarrow> jsstring \<Rightarrow> nat \<Rightarrow> code_unit option" where
  "prevUnit prev s k = (if k = 0 then prev else Some (s ! (k - 1)))"

text \<open>The loop of \<open>extractBracedContent\<close> on the text from \<open>i\<close> on: the number of
  characters it passes.\<close>

fun scanFrom :: "jsstring \<Rightarrow> nat \<Rightarrow> nat" where
  "scanFrom [] depth = 0"
| "scanFrom (x # xs) depth =
     (if depth = 0 then 0
      else Suc (scanFrom xs (if x = of_char CHR ''{'' then depth + 1
                             else if x = of_char CHR ''}'' then depth - 1 else depth)))"

text \<open>Scanning the text from depth \<open>d\<close> never brings the depth to 0.\<close>

fun staysOpen :: "nat \<Rightarrow> jsstring \<Rightarrow> bool" where
  "staysOpen d [] = (0 < d)"
| "staysOpen d (x # xs) =
     (0 < d \<and> staysOpen (if x = of_char CHR ''{'' then d + 1
                         else if x = of_char CHR ''}'' then d - 1 else d) xs)"

text \<open>One round of each scanning loop, once its match and the region after it are
  known.\<close>

definition servicesStep ::
  "jsstring \<Rightarrow> ServiceMatch list \<Rightarrow> RegExpMatch \<Rightarrow> jsstring \<Rightarrow> ServiceMatch list option" where
  "servicesStep content services m b =
     extractServicesLoop content (index m + length (whole m))
       (if b \<noteq> [] then services @ [\<lparr>svcName = group m 1, svcBody = b\<rparr>] else services)"

definition methodsStep ::
  "jsstring \<Rightarrow> ParsedMethod list \<Rightarrow> RegExpMatch \<Rightarrow> HttpAnnotation option \<Rightarrow> ParsedMethod list option" where
  "methodsStep serviceBody ms m ann =
     extractMethodsLoop serviceBody (index m + length (whole m))
       (case ann of
          Some a \<Rightarrow> ms @ [\<lparr>name = group m 1, inputType = group m 2, outputType = group m 3,
                            httpMethod = annMethod a, httpPath = annPath a, body = annBody a\<rparr>]
        | None \<Rightarrow> ms)"

section \<open>Texts the statements are tried on\<close>

text \<open>A text with a package, a service \<open>S\<close> with an annotated method \<open>G\<close> and a
  method \<open>H\<close> without annotation, and a service \<open>T\<close> whose only method has none; the
  body of \<open>S\<close>; and a text whose package declaration does not start its line.\<close>

definition protoText :: jsstring where
  "protoText = js ''package a;service S{rpc G(Q)returns(R){(google.api.http)={get:\"/g\"}}rpc H(Q)returns(R){}}service T{rpc K(Q)returns(R){}}''"

definition serviceBodyS :: jsstring where
  "serviceBodyS = js ''rpc G(Q)returns(R){(google.api.http)={get:\"/g\"}}rpc H(Q)returns(R){}''"

definition protoText2 :: jsstring where
  "protoText2 = js ''x package a;service S{rpc G(Q)returns(R){(google.api.http)={get:\"/g\"}}}''"

text \<open>An options block with two verb pairs, and one with a primary binding followed by
  additional bindings.\<close>

definition twoVerbsBlock :: jsstring where
  "twoVerbsBlock = js ''(google.api.http) = { get: \"/a\" post: \"/b\" }''"

definition additionalBindingsBlock :: jsstring where
  "additionalBindingsBlock =
     js ''(google.api.http) = { get: \"/c\" additional_bindings { get: \"/a\" post: \"/b\" } }''"

text \<open>An options block with a body selector.\<close>

definition bodyStarBlock :: jsstring where
  "bodyStarBlock = js ''(google.api.http) = { post: \"/v1/users\" body: \"*\" }''"


definition unclosedText :: jsstring where
  "unclosedText = js ''service S {ab''"

text \<open>A service \<open>S\<close> without a package whose one method is annotated, its body, the
  service it is parsed into, and the text that declares it \<open>n\<close> times over.\<close>

definition serviceText :: jsstring where
  "serviceText = js ''service S{rpc G(Q)returns(R){(google.api.http)={get:\"/g\"}}}''"

definition serviceTextBody :: jsstring where
  "serviceTextBody = js ''rpc G(Q)returns(R){(google.api.http)={get:\"/g\"}}''"

definition serviceS :: ParsedService where
  "serviceS = \<lparr>packageName = [], serviceName = js ''S'', fullName = js ''S'',
                methods = [\<lparr>name = js ''G'', inputType = js ''Q'', outputType = js ''R'',
                            httpMethod = GET, httpPath = js ''/g'', body = None\<rparr>]\<rparr>"

definition manyServices :: "nat \<Rightarrow> jsstring" where
  "manyServices n = concat (replicate n serviceText)"

section \<open>Texts of the repository's tests\<close>

text \<open>The inputs of three tests of \<open>parseProtoFile\<close>, line by line: a service with no
  method, a \<open>POST\<close> method with a body selector, and a service with one annotated
  method and one without annotation.\<close>

definition testEmptyService :: jsstring where
  "testEmptyService =
       js ''\<newline>''
     @ js ''        syntax = \"proto3\";\<newline>''
     @ js ''        package users.v1;\<newline>''
     @ js ''\<newline>''
     @ js ''        service UserService {}\<newline>''
     @ js ''      ''"

definition testPostWithBody :: jsstring where
  "testPostWithBody =
       js ''\<newline>''
     @ js ''        syntax = \"proto3\";\<newline>''
     @ js ''        package users.v1;\<newline>''
     @ js ''\<newline>''
     @ js ''        service UserService {\<newline>''
     @ js ''          rpc CreateUser(CreateUserRequest) returns (CreateUserResponse) {\<newline>''
     @ js ''            option (google.api.http) = {\<newline>''
     @ js ''              post: \"/v1/users\"\<newline>''
     @ js ''              body: \"*\"\<newline>''
     @ js ''            };\<newline>''
     @ js ''          };\<newline>''
     @ js ''        }\<newline>''
     @ js ''      ''"

definition testMixedService :: jsstring where
  "testMixedService =
       js ''\<newline>''
     @ js ''        syntax = \"proto3\";\<newline>''
     @ js ''        package api.v1;\<newline>''
     @ js ''\<newline>''
     @ js ''        service MixedService {\<newline>''
     @ js ''          rpc WithHttp(Req) returns (Res) {\<newline>''
     @ js ''            option (google.api.http) = { get: \"/with-http\" };\<newline>''
     @ js ''          };\<newline>''
     @ js ''\<newline>''
     @ js ''          rpc WithoutHttp(Req) returns (Res) {\<newline>''
     @ js ''            // No HTTP annotation\<newline>''
     @ js ''          };\<newline>''
     @ js ''        }\<newline>''
     @ js ''      ''"

section \<open>Substrings\<close>

lemma includes_str_iff: "includes_str s t \<longleftrightarrow> (\<exists>pre post. s = pre @ t @ post)"
proof -
  have sw: "\<And>s. startsWith s t \<longleftrightarrow> (\<exists>post. s = t @ post)"
  proof -
    fix s show "startsWith s t \<longleftrightarrow> (\<exists>post. s = t @ post)"
      by (induction s t rule: startsWith.induct) auto
  qed
  show ?thesis
  proof (induction s)
    case Nil
    then show ?case by auto
  next
    case (Cons x xs)
    show ?case
    proof
      assume "includes_str (x # xs) t"
      then consider "startsWith (x # xs) t" | "includes_str xs t" by auto
      then show "\<exists>pre post. x # xs = pre @ t @ post"
      proof cases
        case 1
        with sw obtain post where "x # xs = t @ post" by blast
        then have "x # xs = [] @ t @ post" by simp
        then show ?thesis by blast
      next
        case 2
        with Cons obtain pre post where "xs = pre @ t @ post" by blast
        then have "x # xs = (x # pre) @ t @ post" by simp
        then show ?thesis by blast
      qed
    next
      assume "\<exists>pre post. x # xs = pre @ t @ post"
      then obtain pre post where p: "x # xs = pre @ t @ post" by blast
      show "includes_str (x # xs) t"
      proof (cases pre)
        case Nil
        with p have "\<exists>post. x # xs = t @ post" by auto
        then have "startsWith (x # xs) t" by (simp only: sw)
        then show ?thesis by simp
      next
        case (Cons y ys)
        with p have "xs = ys @ t @ post" by simp
        with Cons.IH show ?thesis by auto
      qed
    qed
  qed
qed

section \<open>A match consumes input\<close>

text \<open>A match leaves a suffix of its input and consumes at least \<open>minLen\<close>
  characters, so each round of a scanning loop moves \<open>lastIndex\<close> forward.\<close>

lemma snd_extendGroup: "snd (extendGroup g x r) = snd r"
  by (cases "(g, x, r)" rule: extendGroup.cases) auto

lemma openGroup_Some: "openGroup g r = Some (caps, rest) \<Longrightarrow> \<exists>caps'. r = Some (caps', rest)"
  by (auto simp: openGroup_def split: if_splits)

lemma extendGroup_eq: "extendGroup g x r = (caps, rest) \<Longrightarrow> \<exists>caps'. r = (caps', rest)"
  using snd_extendGroup[of g x r] by (cases r) auto

lemma matchHere_rest:
  "matchHere ns prev s = Some (caps, rest) \<Longrightarrow> \<exists>pre. s = pre @ rest \<and> minLen ns \<le> length pre"
proof (induction ns prev s arbitrary: caps rest rule: matchHere.induct)
  case (1 prev s)
  then show ?case by simp
next
  case (2 ns prev s)
  then show ?case by (auto split: option.splits if_splits)
next
  case (3 g c ns prev)
  then show ?case by simp
next
  case (4 g c ns prev x xs)
  from "4.prems" have cx: "cls_match c x" by (auto split: if_splits)
  with "4.prems" obtain r where r: "openGroup g (matchHere ns (Some x) xs) = Some r" "extendGroup g x r = (caps, rest)"
    by auto
  from extendGroup_eq[OF r(2)] obtain c1 where "r = (c1, rest)" by blast
  with r(1) openGroup_Some obtain c2 where "matchHere ns (Some x) xs = Some (c2, rest)" by blast
  from "4.IH"[OF cx this] obtain pre where "xs = pre @ rest" "minLen ns \<le> length pre" by blast
  then have "x # xs = (x # pre) @ rest \<and> minLen (Rep g c Once # ns) \<le> length (x # pre)" by simp
  then show ?case by blast
next
  case (5 g c ns prev)
  from openGroup_Some[OF "5.prems"[simplified]] obtain c2 where "matchHere ns prev [] = Some (c2, rest)" by blast
  from "5.IH"[OF this] show ?case by simp
next
  case (6 g c ns prev x xs)
  show ?case
  proof (cases "cls_match c x \<and> matchHere (Rep g c ZeroOrMore # ns) (Some x) xs \<noteq> None")
    case True
    then obtain r where r: "matchHere (Rep g c ZeroOrMore # ns) (Some x) xs = Some r" by auto
    with True "6.prems" have "extendGroup g x r = (caps, rest)" by simp
    from extendGroup_eq[OF this] obtain c1 where "r = (c1, rest)" by blast
    with r have "matchHere (Rep g c ZeroOrMore # ns) (Some x) xs = Some (c1, rest)" by simp
    from "6.IH"(1)[OF _ this] True obtain pre where "xs = pre @ rest" "minLen ns \<le> length pre" by auto
    then have "x # xs = (x # pre) @ rest \<and> minLen (Rep g c ZeroOrMore # ns) \<le> length (x # pre)" by simp
    then show ?thesis by blast
  next
    case False
    with "6.prems" have o: "openGroup g (matchHere ns prev (x # xs)) = Some (caps, rest)"
      by (auto split: if_splits option.splits)
    from openGroup_Some[OF this] obtain c2 where m: "matchHere ns prev (x # xs) = Some (c2, rest)" by blast
    show ?thesis
    proof (cases "cls_match c x")
      case True
      with False have "matchHere (Rep g c ZeroOrMore # ns) (Some x) xs = None" by blast
      from "6.IH"(2)[OF True this m] show ?thesis by simp
    next
      case F: False
      from "6.IH"(3)[OF F m] show ?thesis by simp
    qed
  qed
next
  case (7 g c ns prev)
  then show ?case by simp
next
  case (8 g c ns prev x xs)
  from "8.prems" have cx: "cls_match c x" by (auto split: if_splits)
  with "8.prems" obtain r where r: "matchHere (Rep g c ZeroOrMore # ns) (Some x) xs = Some r" "extendGroup g x r = (caps, rest)"
    by auto
  from extendGroup_eq[OF r(2)] obtain c1 where "r = (c1, rest)" by blast
  with r(1) have "matchHere (Rep g c ZeroOrMore # ns) (Some x) xs = Some (c1, rest)" by simp
  from "8.IH"[OF cx this] obtain pre where "xs = pre @ rest" "minLen ns \<le> length pre" by auto
  then have "x # xs = (x # pre) @ rest \<and> minLen (Rep g c OneOrMore # ns) \<le> length (x # pre)" by simp
  then show ?case by blast
qed

lemma searchAt_bounds:
  "searchAt re i prev s = Some m \<Longrightarrow>
     i \<le> index m \<and> index m + length (whole m) \<le> i + length s \<and> minLen re \<le> length (whole m)"
proof (induction s arbitrary: i prev)
  case Nil
  then show ?case
    by (auto split: option.splits dest!: matchHere_rest)
next
  case (Cons x xs)
  show ?case
  proof (cases "matchHere re prev (x # xs)")
    case None
    with Cons.prems have "searchAt re (Suc i) (Some x) xs = Some m" by simp
    from Cons.IH[OF this] show ?thesis by simp
  next
    case (Some r)
    obtain caps rest where r: "r = (caps, rest)" by (cases r)
    from matchHere_rest Some r obtain pre where p: "x # xs = pre @ rest" "minLen re \<le> length pre" by blast
    from Some r Cons.prems have m: "m = \<lparr>index = i, whole = take (length (x # xs) - length rest) (x # xs), groups = caps\<rparr>"
      by simp
    have "length (x # xs) - length rest = length pre" using p(1) by (metis add_diff_cancel_right' length_append)
    with m p show ?thesis by (simp del: searchAt.simps)
  qed
qed

lemma regexExec_bounds:
  "regexExec re s lastIndex = Some m \<Longrightarrow>
     lastIndex \<le> index m \<and> index m + length (whole m) \<le> length s \<and> minLen re \<le> length (whole m)"
  unfolding regexExec_def
  by (auto split: if_splits dest!: searchAt_bounds simp del: searchAt.simps)

lemma minLen_append: "minLen (a @ b) = minLen a + minLen b"
  by (induction a rule: minLen.induct) auto

lemma minLen_lit: "minLen (lit s) = length s"
  by (induction s) (auto simp: lit_def)

lemma minLen_serviceRegex: "0 < minLen serviceRegex"
  by (simp add: serviceRegex_def minLen_append minLen_lit js_def)

lemma minLen_rpcStartRegex: "0 < minLen rpcStartRegex"
  by (simp add: rpcStartRegex_def minLen_append minLen_lit js_def)

section \<open>The scanning loops return\<close>

lemma extractServicesLoop_total: "\<exists>r. extractServicesLoop content lastIndex services = Some r"
proof (induction "Suc (length content) - lastIndex" arbitrary: lastIndex services rule: less_induct)
  case less
  show ?case
  proof (cases "regexExec serviceRegex content lastIndex")
    case None
    then show ?thesis by (subst extractServicesLoop.simps) simp
  next
    case (Some m)
    from regexExec_bounds[OF Some] minLen_serviceRegex
    have "Suc (length content) - (index m + length (whole m)) < Suc (length content) - lastIndex"
      by linarith
    from less[OF this] Some show ?thesis
      by (subst extractServicesLoop.simps) (simp add: group_def Let_def)
  qed
qed

lemma extractMethodsLoop_total: "\<exists>r. extractMethodsLoop serviceBody lastIndex ms = Some r"
proof (induction "Suc (length serviceBody) - lastIndex" arbitrary: lastIndex ms rule: less_induct)
  case less
  show ?case
  proof (cases "regexExec rpcStartRegex serviceBody lastIndex")
    case None
    then show ?thesis by (subst extractMethodsLoop.simps) simp
  next
    case (Some m)
    from regexExec_bounds[OF Some] minLen_rpcStartRegex
    have "Suc (length serviceBody) - (index m + length (whole m)) < Suc (length serviceBody) - lastIndex"
      by linarith
    from less[OF this] Some show ?thesis
      by (subst extractMethodsLoop.simps) (simp add: group_def Let_def)
  qed
qed

lemma extractServices_total: "\<exists>r. extractServices content = Some r"
  by (simp add: extractServices_def extractServicesLoop_total)

lemma extractMethods_total: "\<exists>r. extractMethods serviceBody = Some r"
  by (simp add: extractMethods_def extractMethodsLoop_total)

lemma parseProtoFileLoop_total: "\<exists>r. parseProtoFileLoop p sms acc = Some r"
proof (induction sms arbitrary: acc)
  case Nil
  then show ?case by simp
next
  case (Cons sm sms)
  obtain ms where "extractMethods (svcBody sm) = Some ms" using extractMethods_total by blast
  then show ?case using Cons.IH by simp
qed

lemma parseProtoFile_total: "\<exists>r. parseProtoFile content = Some r"
proof -
  obtain sms where "extractServices content = Some sms" using extractServices_total by blast
  then show ?thesis by (simp add: parseProtoFile_def parseProtoFileLoop_total)
qed

section \<open>The leftmost match\<close>

text \<open>A search returns the match at the least position where the pattern matches, and
  finds one whenever the pattern matches somewhere.\<close>

lemma prevUnit_Suc: "prevUnit (Some x) xs k = prevUnit prev (x # xs) (Suc k)"
  by (cases k) (simp_all add: prevUnit_def)

lemma searchAt_sound:
  "searchAt re i prev s = Some m \<Longrightarrow>
     \<exists>k caps rest. index m = i + k \<and> k \<le> length s
         \<and> matchHere re (prevUnit prev s k) (drop k s) = Some (caps, rest)
         \<and> groups m = caps \<and> whole m = take (length s - k - length rest) (drop k s)
         \<and> (\<forall>j<k. matchHere re (prevUnit prev s j) (drop j s) = None)"
proof (induction s arbitrary: i prev)
  case Nil
  then show ?case by (auto split: option.splits simp: prevUnit_def)
next
  case (Cons x xs)
  show ?case
  proof (cases "matchHere re prev (x # xs)")
    case None
    with Cons.prems have "searchAt re (Suc i) (Some x) xs = Some m" by simp
    from Cons.IH[OF this] obtain k caps rest where k:
      "index m = Suc i + k" "k \<le> length xs"
      "matchHere re (prevUnit (Some x) xs k) (drop k xs) = Some (caps, rest)"
      "groups m = caps" "whole m = take (length xs - k - length rest) (drop k xs)"
      "\<forall>j<k. matchHere re (prevUnit (Some x) xs j) (drop j xs) = None"
      by blast
    have "\<forall>j<Suc k. matchHere re (prevUnit prev (x # xs) j) (drop j (x # xs)) = None"
    proof (intro allI impI)
      fix j assume "j < Suc k"
      show "matchHere re (prevUnit prev (x # xs) j) (drop j (x # xs)) = None"
      proof (cases j)
        case 0
        then show ?thesis using None by (simp add: prevUnit_def)
      next
        case (Suc j')
        with \<open>j < Suc k\<close> k(6) have "matchHere re (prevUnit (Some x) xs j') (drop j' xs) = None" by simp
        then show ?thesis using Suc prevUnit_Suc[of x xs j' prev] by simp
      qed
    qed
    with k prevUnit_Suc[of x xs k prev] show ?thesis
      by (intro exI[of _ "Suc k"] exI[of _ caps] exI[of _ rest]) simp
  next
    case (Some r)
    obtain caps rest where r: "r = (caps, rest)" by (cases r)
    with Some Cons.prems show ?thesis
      by (intro exI[of _ 0] exI[of _ caps] exI[of _ rest]) (auto simp: prevUnit_def)
  qed
qed

lemma searchAt_complete:
  "k \<le> length s \<Longrightarrow> matchHere re (prevUnit prev s k) (drop k s) \<noteq> None \<Longrightarrow>
     searchAt re i prev s \<noteq> None"
proof (induction s arbitrary: i prev k)
  case Nil
  then show ?case by (auto simp: prevUnit_def)
next
  case (Cons x xs)
  show ?case
  proof (cases "matchHere re prev (x # xs)")
    case None
    with Cons.prems obtain k' where k': "k = Suc k'" by (cases k) (auto simp: prevUnit_def)
    with Cons.prems prevUnit_Suc[of x xs k' prev]
    have "k' \<le> length xs" "matchHere re (prevUnit (Some x) xs k') (drop k' xs) \<noteq> None" by auto
    from Cons.IH[OF this] None show ?thesis by simp
  next
    case (Some r)
    then show ?thesis by (cases r) simp
  qed
qed

lemma stringMatch_sound:
  "stringMatch s re = Some m \<Longrightarrow>
     \<exists>caps rest. index m \<le> length s
         \<and> matchHere re (prevUnit None s (index m)) (drop (index m) s) = Some (caps, rest)
         \<and> groups m = caps
         \<and> (\<forall>j<index m. matchHere re (prevUnit None s j) (drop j s) = None)"
  unfolding stringMatch_def regexExec_def
  by (auto dest!: searchAt_sound simp del: searchAt.simps)

lemma stringMatch_complete:
  "k \<le> length s \<Longrightarrow> matchHere re (prevUnit None s k) (drop k s) \<noteq> None \<Longrightarrow>
     stringMatch s re \<noteq> None"
  unfolding stringMatch_def regexExec_def
  using searchAt_complete[of k s re None 0] by (simp del: searchAt.simps)

lemma searchAt_step:
  "matchHere re prev (x # xs) = None \<Longrightarrow>
     searchAt re i prev (x # xs) = searchAt re (Suc i) (Some x) xs"
  by simp

lemma searchAt_index_cong: "i = j \<Longrightarrow> searchAt re i prev s = searchAt re j prev s"
  by simp

lemma regexExec_append:
  "k \<le> length s \<Longrightarrow>
     regexExec re (pre @ s) (length pre + k)
       = searchAt re (length pre + k)
           (if length pre + k = 0 then None else Some ((pre @ s) ! (length pre + k - 1)))
           (drop k s)"
  by (simp add: regexExec_def)

section \<open>Captured groups\<close>

text \<open>A match has one captured string for each group of its pattern, so the groups
  the parser reads (\<open>match[1]\<close>, and \<open>match[2]\<close>, \<open>match[3]\<close> of an \<open>rpc\<close>
  declaration) are there.\<close>

lemma openGroup_length:
  "openGroup g r = Some (caps, rest) \<Longrightarrow>
     \<exists>caps'. r = Some (caps', rest) \<and> length caps = (if g then Suc (length caps') else length caps')"
  by (auto simp: openGroup_def split: if_splits)

lemma extendGroup_length:
  "extendGroup g x (caps', rest') = (caps, rest) \<Longrightarrow> g \<longrightarrow> caps' \<noteq> [] \<Longrightarrow>
     length caps = length caps' \<and> rest = rest'"
  by (cases "(g, x, (caps', rest'))" rule: extendGroup.cases) auto

lemma matchHere_groups:
  "matchHere ns prev s = Some (caps, rest) \<Longrightarrow> length caps = groupCount ns"
proof (induction ns prev s arbitrary: caps rest rule: matchHere.induct)
  case (1 prev s)
  then show ?case by simp
next
  case (2 ns prev s)
  then show ?case by (auto split: option.splits if_splits)
next
  case (3 g c ns prev)
  then show ?case by simp
next
  case (4 g c ns prev x xs)
  from "4.prems" have cx: "cls_match c x" by (auto split: if_splits)
  with "4.prems" obtain c1 r1 where r: "openGroup g (matchHere ns (Some x) xs) = Some (c1, r1)"
    "extendGroup g x (c1, r1) = (caps, rest)"
    by auto
  from openGroup_length[OF r(1)] obtain c2 where c2: "matchHere ns (Some x) xs = Some (c2, r1)"
    "length c1 = (if g then Suc (length c2) else length c2)" by blast
  from c2(2) have "g \<longrightarrow> c1 \<noteq> []" by auto
  from extendGroup_length[OF r(2) this] "4.IH"[OF cx c2(1)] c2(2) show ?case by simp
next
  case (5 g c ns prev)
  from openGroup_length[OF "5.prems"[simplified]] "5.IH" show ?case by auto
next
  case (6 g c ns prev x xs)
  show ?case
  proof (cases "cls_match c x \<and> matchHere (Rep g c ZeroOrMore # ns) (Some x) xs \<noteq> None")
    case True
    then obtain c1 r1 where r: "matchHere (Rep g c ZeroOrMore # ns) (Some x) xs = Some (c1, r1)" by auto
    with True "6.prems" have e: "extendGroup g x (c1, r1) = (caps, rest)" by simp
    from "6.IH"(1)[OF _ r] True have l: "length c1 = groupCount (Rep g c ZeroOrMore # ns)" by simp
    then have "g \<longrightarrow> c1 \<noteq> []" by auto
    from extendGroup_length[OF e this] l show ?thesis by simp
  next
    case False
    with "6.prems" have o: "openGroup g (matchHere ns prev (x # xs)) = Some (caps, rest)"
      by (auto split: if_splits option.splits)
    from openGroup_length[OF this] obtain c2 where m: "matchHere ns prev (x # xs) = Some (c2, rest)"
      "length caps = (if g then Suc (length c2) else length c2)" by blast
    show ?thesis
    proof (cases "cls_match c x")
      case True
      with False have "matchHere (Rep g c ZeroOrMore # ns) (Some x) xs = None" by blast
      from "6.IH"(2)[OF True this m(1)] m(2) show ?thesis by simp
    next
      case F: False
      from "6.IH"(3)[OF F m(1)] m(2) show ?thesis by simp
    qed
  qed
next
  case (7 g c ns prev)
  then show ?case by simp
next
  case (8 g c ns prev x xs)
  from "8.prems" have cx: "cls_match c x" by (auto split: if_splits)
  with "8.prems" obtain c1 r1 where r: "matchHere (Rep g c ZeroOrMore # ns) (Some x) xs = Some (c1, r1)"
    "extendGroup g x (c1, r1) = (caps, rest)"
    by auto
  from "8.IH"[OF cx r(1)] have l: "length c1 = groupCount (Rep g c ZeroOrMore # ns)" by simp
  then have "g \<longrightarrow> c1 \<noteq> []" by auto
  from extendGroup_length[OF r(2) this] l show ?case by simp
qed

lemma groupCount_append: "groupCount (a @ b) = groupCount a + groupCount b"
  by (induction a rule: groupCount.induct) auto

lemma groupCount_lit: "groupCount (lit s) = 0" "groupCount (litI s) = 0"
  by (induction s) (auto simp: lit_def litI_def)

lemma groupCounts:
  "groupCount packageRegex = 1" "groupCount serviceRegex = 1" "groupCount rpcStartRegex = 3"
  "groupCount (pathRegex v) = 1" "groupCount bodyRegex = 1"
  by (simp_all add: packageRegex_def serviceRegex_def rpcStartRegex_def pathRegex_def bodyRegex_def
      groupCount_append groupCount_lit)

lemma regexExec_groups:
  "regexExec re s i = Some m \<Longrightarrow> length (groups m) = groupCount re"
  unfolding regexExec_def
  by (auto split: if_splits dest!: searchAt_sound matchHere_groups simp del: searchAt.simps)

section \<open>Greedy repetition\<close>

text \<open>A run of characters of a class, followed by a character outside it, is consumed
  whole by \<open>*\<close> and \<open>+\<close> when the rest of the pattern matches after it.\<close>

lemma matchHere_star_max:
  "\<forall>x\<in>set xs. cls_match c x \<Longrightarrow> s = [] \<or> \<not> cls_match c (hd s) \<Longrightarrow>
   matchHere ns (if xs = [] then prev else Some (last xs)) s = Some (caps, rest) \<Longrightarrow>
     matchHere (Rep g c ZeroOrMore # ns) prev (xs @ s) = Some (if g then xs # caps else caps, rest)"
proof (induction xs arbitrary: prev)
  case Nil
  then show ?case by (cases s) (auto simp: openGroup_def)
next
  case (Cons x xs)
  from Cons.prems have "matchHere ns (if xs = [] then Some x else Some (last xs)) s = Some (caps, rest)"
    by (simp split: if_splits)
  from Cons.IH[OF _ Cons.prems(2) this] Cons.prems(1)
  have "matchHere (Rep g c ZeroOrMore # ns) (Some x) (xs @ s) = Some (if g then xs # caps else caps, rest)"
    by simp
  with Cons.prems(1) show ?case by simp
qed

lemma matchHere_plus_max:
  "xs \<noteq> [] \<Longrightarrow> \<forall>x\<in>set xs. cls_match c x \<Longrightarrow> s = [] \<or> \<not> cls_match c (hd s) \<Longrightarrow>
   matchHere ns (Some (last xs)) s = Some (caps, rest) \<Longrightarrow>
     matchHere (Rep g c OneOrMore # ns) prev (xs @ s) = Some (if g then xs # caps else caps, rest)"
proof -
  assume ne: "xs \<noteq> []" and a: "\<forall>x\<in>set xs. cls_match c x" and h: "s = [] \<or> \<not> cls_match c (hd s)"
    and m: "matchHere ns (Some (last xs)) s = Some (caps, rest)"
  from ne obtain x xs' where xs: "xs = x # xs'" by (cases xs) auto
  with m have "matchHere ns (if xs' = [] then Some x else Some (last xs')) s = Some (caps, rest)"
    by (simp split: if_splits)
  from matchHere_star_max[where g = g and c = c and xs = xs' and prev = "Some x", OF _ h this] a xs
  have "matchHere (Rep g c ZeroOrMore # ns) (Some x) (xs' @ s) = Some (if g then xs' # caps else caps, rest)"
    by simp
  with a xs show ?thesis by simp
qed

lemma space_not_wordDot: "isSpace x \<Longrightarrow> \<not> (isWord x \<or> x = 46)"
  by (auto simp: isSpace_def isWord_def)

lemma wordDot_not_space: "isWord x \<or> x = 46 \<Longrightarrow> \<not> isSpace x"
  by (auto simp: isSpace_def isWord_def)

lemma package_declaration_matches:
  assumes ls: "prev = None \<or> (\<exists>p. prev = Some p \<and> isLineTerminator p)"
    and w0: "\<forall>x\<in>set ws0. isSpace x"
    and w1: "ws1 \<noteq> []" "\<forall>x\<in>set ws1. isSpace x"
    and id: "ident \<noteq> []" "\<forall>x\<in>set ident. isWord x \<or> x = 46"
    and w2: "\<forall>x\<in>set ws2. isSpace x"
  shows "matchHere packageRegex prev (ws0 @ js ''package'' @ ws1 @ ident @ ws2 @ js '';'' @ post)
           = Some ([ident], post)"
proof -
  let ?semi = "lit (js '';'')"
  have e1: "\<And>p. matchHere ?semi p (js '';'' @ post) = Some ([], post)"
    by (simp add: lit_def js_def openGroup_def)
  have e2: "\<And>p. matchHere (Rep False Space ZeroOrMore # ?semi) p (ws2 @ js '';'' @ post) = Some ([], post)"
    using matchHere_star_max[where xs = ws2 and c = Space and s = "js '';'' @ post" and ns = ?semi
        and caps = "[]" and rest = post and g = False] w2 e1
    by (simp add: js_def isSpace_def)
  have h3: "ws2 @ js '';'' @ post = [] \<or> \<not> cls_match WordDot (hd (ws2 @ js '';'' @ post))"
    using w2 space_not_wordDot by (cases ws2) (auto simp: js_def isWord_def)
  have e3: "\<And>p. matchHere (Rep True WordDot OneOrMore # Rep False Space ZeroOrMore # ?semi) p
                 (ident @ ws2 @ js '';'' @ post) = Some ([ident], post)"
    using matchHere_plus_max[where g = True, OF id(1) _ h3 e2] id(2) by simp
  have h4: "ident @ ws2 @ js '';'' @ post = [] \<or> \<not> cls_match Space (hd (ident @ ws2 @ js '';'' @ post))"
    using id wordDot_not_space by (cases ident) auto
  have e4: "\<And>p. matchHere (Rep False Space OneOrMore # Rep True WordDot OneOrMore
                   # Rep False Space ZeroOrMore # ?semi) p
                 (ws1 @ ident @ ws2 @ js '';'' @ post) = Some ([ident], post)"
    using matchHere_plus_max[where g = False, OF w1(1) _ h4 e3] w1(2) by simp
  have e5: "\<And>p. matchHere (lit (js ''package'') @ Rep False Space OneOrMore # Rep True WordDot OneOrMore
                   # Rep False Space ZeroOrMore # ?semi) p
                 (js ''package'' @ ws1 @ ident @ ws2 @ js '';'' @ post) = Some ([ident], post)"
    using e4 by (simp add: lit_def js_def openGroup_def)
  have h6: "js ''package'' @ ws1 @ ident @ ws2 @ js '';'' @ post = []
            \<or> \<not> cls_match Space (hd (js ''package'' @ ws1 @ ident @ ws2 @ js '';'' @ post))"
    by (simp add: js_def isSpace_def)
  have e6: "\<And>p. matchHere (Rep False Space ZeroOrMore # lit (js ''package'') @ Rep False Space OneOrMore
                   # Rep True WordDot OneOrMore # Rep False Space ZeroOrMore # ?semi) p
                 (ws0 @ js ''package'' @ ws1 @ ident @ ws2 @ js '';'' @ post) = Some ([ident], post)"
    using matchHere_star_max[where g = False and xs = ws0, OF _ h6 e5] w0 by simp
  from ls e6 show ?thesis
    by (auto simp: packageRegex_def)
qed

lemma packageRegex_needs_line_start:
  "\<not> isLineTerminator p \<Longrightarrow> matchHere packageRegex (Some p) s = None"
  by (simp add: packageRegex_def)

lemma get_pair_matches:
  assumes "map upperUnit kw = js ''GET''" "isQuote q1" "isQuote q2"
  shows "matchHere (pathRegex (js ''get'')) prev (kw @ js '': '' @ [q1] @ js ''/a'' @ [q2] @ post)
           = Some ([js ''/a''], post)"
proof -
  from assms(1) obtain g e t where kw: "kw = [g, e, t]" "upperUnit g = 71" "upperUnit e = 69" "upperUnit t = 84"
    by (auto simp: js_def)
  with assms(2,3) show ?thesis
    by (simp add: pathRegex_def litI_def js_def isSpace_def openGroup_def isQuote_def upperUnit_def)
qed

lemma quote_not_space: "isQuote x \<Longrightarrow> \<not> isSpace x"
  by (auto simp: isQuote_def isSpace_def)

lemma body_pair_matches:
  assumes w1: "\<forall>x\<in>set ws1. isSpace x" and w2: "\<forall>x\<in>set ws2. isSpace x"
    and q: "isQuote q1" "isQuote q2"
    and v: "v \<noteq> []" "\<forall>x\<in>set v. \<not> isQuote x"
  shows "matchHere bodyRegex prev (js ''body'' @ ws1 @ js '':'' @ ws2 @ [q1] @ v @ [q2] @ post)
           = Some ([v], post)"
proof -
  let ?close = "[Rep False Quote Once]"
  have e1: "\<And>p. matchHere ?close p ([q2] @ post) = Some ([], post)"
    using q(2) by (simp add: openGroup_def)
  have h2: "[q2] @ post = [] \<or> \<not> cls_match NotQuote (hd ([q2] @ post))"
    using q(2) by simp
  have e2: "\<And>p. matchHere (Rep True NotQuote OneOrMore # ?close) p (v @ [q2] @ post)
                 = Some ([v], post)"
    using matchHere_plus_max[where g = True, OF v(1) _ h2 e1] v(2) by simp
  have e3: "\<And>p. matchHere (Rep False Quote Once # Rep True NotQuote OneOrMore # ?close) p
                 ([q1] @ v @ [q2] @ post) = Some ([v], post)"
    using e2 q(1) by (simp add: openGroup_def)
  have h4: "[q1] @ v @ [q2] @ post = [] \<or> \<not> cls_match Space (hd ([q1] @ v @ [q2] @ post))"
    using q(1) quote_not_space by simp
  have e4: "\<And>p. matchHere (Rep False Space ZeroOrMore # Rep False Quote Once
                   # Rep True NotQuote OneOrMore # ?close) p
                 (ws2 @ [q1] @ v @ [q2] @ post) = Some ([v], post)"
    using matchHere_star_max[where g = False and xs = ws2, OF _ h4 e3] w2 by simp
  have e5: "\<And>p. matchHere (lit (js '':'') @ Rep False Space ZeroOrMore # Rep False Quote Once
                   # Rep True NotQuote OneOrMore # ?close) p
                 (js '':'' @ ws2 @ [q1] @ v @ [q2] @ post) = Some ([v], post)"
    using e4 by (simp add: lit_def js_def openGroup_def)
  have h6: "js '':'' @ ws2 @ [q1] @ v @ [q2] @ post = []
            \<or> \<not> cls_match Space (hd (js '':'' @ ws2 @ [q1] @ v @ [q2] @ post))"
    by (simp add: js_def isSpace_def)
  have e6: "\<And>p. matchHere (Rep False Space ZeroOrMore # lit (js '':'') @ Rep False Space ZeroOrMore
                   # Rep False Quote Once # Rep True NotQuote OneOrMore # ?close) p
                 (ws1 @ js '':'' @ ws2 @ [q1] @ v @ [q2] @ post) = Some ([v], post)"
    using matchHere_star_max[where g = False and xs = ws1, OF _ h6 e5] w1 by simp
  from e6 show ?thesis
    by (simp add: bodyRegex_def lit_def js_def openGroup_def)
qed

lemma lower_GET: "toLowerCase (methodString GET) = js ''get''"
  by (simp add: toLowerCase_def lowerUnit_def js_def)

lemma httpMethods_GET: "httpMethods = [] @ GET # [POST, PUT, PATCH, DELETE]"
  by (simp add: httpMethods_def)

section \<open>The brace scanner\<close>

lemma scanBraces_scanFrom: "scanBraces content i depth = i + scanFrom (drop i content) depth"
proof (induction content i depth rule: scanBraces.induct)
  case (1 content i depth)
  show ?case
  proof (cases "i < length content \<and> 0 < depth")
    case True
    then have d: "drop i content = content ! i # drop (Suc i) content"
      by (simp add: Cons_nth_drop_Suc)
    from True "1.IH" show ?thesis
      by (subst scanBraces.simps) (auto simp: d)
  next
    case False
    then show ?thesis
      by (subst scanBraces.simps) (cases "drop i content"; auto)
  qed
qed

lemma scanFrom_zero: "scanFrom s 0 = 0"
  by (cases s) simp_all

lemma scanFrom_region:
  "\<forall>j\<le>length r. count_list (take j r) (of_char CHR ''}'') < d + count_list (take j r) (of_char CHR ''{'') \<Longrightarrow>
     scanFrom (r @ t) d
       = length r + scanFrom t (d + count_list r (of_char CHR ''{'') - count_list r (of_char CHR ''}''))"
proof (induction r arbitrary: d)
  case Nil
  then show ?case by simp
next
  case (Cons x r)
  from Cons.prems[rule_format, of 0] have d0: "0 < d" by simp
  have step: "\<forall>j\<le>length r. count_list (take j r) (of_char CHR ''}'')
               < (if x = of_char CHR ''{'' then d + 1 else if x = of_char CHR ''}'' then d - 1 else d)
                 + count_list (take j r) (of_char CHR ''{'')"
  proof (intro allI impI)
    fix j assume "j \<le> length r"
    with Cons.prems[rule_format, of "Suc j"] show "count_list (take j r) (of_char CHR ''}'')
               < (if x = of_char CHR ''{'' then d + 1 else if x = of_char CHR ''}'' then d - 1 else d)
                 + count_list (take j r) (of_char CHR ''{'')"
      by (auto split: if_splits)
  qed
  from Cons.prems[rule_format, of "length (x # r)"]
  have tot: "count_list (x # r) (of_char CHR ''}'') < d + count_list (x # r) (of_char CHR ''{'')" by simp
  from Cons.IH[OF step] d0 tot show ?case
    by (auto split: if_splits)
qed

lemma staysOpen_counts:
  "staysOpen d r \<Longrightarrow>
     \<forall>j\<le>length r. count_list (take j r) (of_char CHR ''}'')
                    < d + count_list (take j r) (of_char CHR ''{'')"
proof (induction r arbitrary: d)
  case Nil
  then show ?case by simp
next
  case (Cons x r)
  show ?case
  proof (intro allI impI)
    fix j assume j: "j \<le> length (x # r)"
    show "count_list (take j (x # r)) (of_char CHR ''}'')
            < d + count_list (take j (x # r)) (of_char CHR ''{'')"
    proof (cases j)
      case 0
      with Cons.prems show ?thesis by simp
    next
      case (Suc k)
      with j have k: "k \<le> length r" by simp
      from Cons.prems have d: "0 < d" by simp
      from Cons.prems
      have "staysOpen (if x = of_char CHR ''{'' then d + 1
                       else if x = of_char CHR ''}'' then d - 1 else d) r"
        by simp
      from Cons.IH[OF this, rule_format, OF k] d Suc show ?thesis
        by (auto split: if_splits)
    qed
  qed
qed

lemma slice_mid: "slice (pre @ r @ t) (int (length pre)) (int (length pre + length r)) = r"
  by (simp add: slice_def Let_def)

lemma extractBracedContent_unbalanced:
  "\<forall>j\<le>length t. count_list (take j t) (of_char CHR ''}'')
                  \<le> count_list (take j t) (of_char CHR ''{'') \<Longrightarrow>
     extractBracedContent (pre @ t) (length pre) = butlast t"
proof -
  assume "\<forall>j\<le>length t. count_list (take j t) (of_char CHR ''}'')
                  \<le> count_list (take j t) (of_char CHR ''{'')"
  then have "\<forall>j\<le>length t. count_list (take j t) (of_char CHR ''}'')
                  < 1 + count_list (take j t) (of_char CHR ''{'')"
    by (simp add: less_Suc_eq_le)
  from scanFrom_region[OF this, of "[]"] have "scanFrom t 1 = length t" by simp
  then have i: "scanBraces (pre @ t) (length pre) 1 = length pre + length t"
    by (simp add: scanBraces_scanFrom)
  show ?thesis
  proof (cases t rule: rev_cases)
    case Nil
    with i show ?thesis by (simp add: extractBracedContent_def slice_def Let_def)
  next
    case (snoc ys y)
    with i show ?thesis by (simp add: extractBracedContent_def slice_def Let_def)
  qed
qed

lemma extractBracedContent_closed:
  "staysOpen 1 region \<Longrightarrow>
   count_list region (of_char CHR ''{'') = count_list region (of_char CHR ''}'') \<Longrightarrow>
     extractBracedContent (pre @ region @ of_char CHR ''}'' # post) (length pre) = region"
proof -
  assume "staysOpen 1 region"
    and bal: "count_list region (of_char CHR ''{'') = count_list region (of_char CHR ''}'')"
  from staysOpen_counts[OF this(1)] scanFrom_region[of region 1 "of_char CHR ''}'' # post"] bal
  have "scanFrom (region @ of_char CHR ''}'' # post) 1 = length region + 1"
    by (simp add: scanFrom_zero)
  then have "scanBraces (pre @ region @ of_char CHR ''}'' # post) (length pre) 1
               = length pre + length region + 1"
    by (simp add: scanBraces_scanFrom)
  with slice_mid[of pre region "of_char CHR ''}'' # post"] show ?thesis
    by (simp add: extractBracedContent_def)
qed

section \<open>The loops of the parser\<close>

lemma parseHttpAnnotationLoop_body:
  "parseHttpAnnotationLoop verbs optionsBlock = Some a \<Longrightarrow>
     annBody a = (case stringMatch optionsBlock bodyRegex of
                    Some bodyMatch \<Rightarrow> Some (group bodyMatch 1) | None \<Rightarrow> None)"
  by (induction verbs) (auto simp: Let_def split: option.splits)

lemma parseHttpAnnotationLoop_first:
  "\<forall>u\<in>set before. stringMatch block (pathRegex (toLowerCase (methodString u))) = None \<Longrightarrow>
   stringMatch block (pathRegex (toLowerCase (methodString v))) = Some m \<Longrightarrow>
     parseHttpAnnotationLoop (before @ v # after) block
       = Some \<lparr>annMethod = v, annPath = group m 1,
               annBody = (case stringMatch block bodyRegex of
                            Some bodyMatch \<Rightarrow> Some (group bodyMatch 1) | None \<Rightarrow> None)\<rparr>"
  by (induction before) (simp_all add: Let_def)

lemma parseHttpAnnotation_marker:
  "parseHttpAnnotation optionsBlock = Some a \<Longrightarrow> includes_str optionsBlock (js ''google.api.http'')"
  by (simp add: parseHttpAnnotation_def split: if_splits)

lemma extractMethodsLoop_skip:
  "regexExec rpcStartRegex serviceBody lastIndex = Some match \<Longrightarrow>
   \<not> includes_str (extractBracedContent serviceBody (index match + length (group match 0)))
         (js ''google.api.http'') \<Longrightarrow>
     extractMethodsLoop serviceBody lastIndex ms
       = extractMethodsLoop serviceBody (index match + length (group match 0)) ms"
  by (subst extractMethodsLoop.simps) (simp add: Let_def parseHttpAnnotation_def)

lemma extractMethodsLoop_provenance:
  "extractMethodsLoop serviceBody lastIndex acc = Some ms \<Longrightarrow>
     \<exists>new. ms = acc @ new \<and>
       (\<forall>m\<in>set new. \<exists>i match ann.
           regexExec rpcStartRegex serviceBody i = Some match
         \<and> includes_str (extractBracedContent serviceBody (index match + length (group match 0)))
               (js ''google.api.http'')
         \<and> parseHttpAnnotation (extractBracedContent serviceBody (index match + length (group match 0)))
               = Some ann
         \<and> m = \<lparr>name = group match 1, inputType = group match 2, outputType = group match 3,
                 httpMethod = annMethod ann, httpPath = annPath ann, body = annBody ann\<rparr>)"
proof (induction "Suc (length serviceBody) - lastIndex" arbitrary: lastIndex acc rule: less_induct)
  case less
  show ?case
  proof (cases "regexExec rpcStartRegex serviceBody lastIndex")
    case None
    with less.prems have "ms = acc" by (subst (asm) extractMethodsLoop.simps) simp
    then show ?thesis by simp
  next
    case (Some match)
    let ?e = "index match + length (group match 0)"
    let ?block = "extractBracedContent serviceBody ?e"
    from regexExec_bounds[OF Some] minLen_rpcStartRegex
    have dec: "Suc (length serviceBody) - ?e < Suc (length serviceBody) - lastIndex"
      by (simp add: group_def) linarith
    show ?thesis
    proof (cases "parseHttpAnnotation ?block")
      case None
      with Some less.prems have "extractMethodsLoop serviceBody ?e acc = Some ms"
        by (subst (asm) extractMethodsLoop.simps) (simp add: Let_def)
      from less.hyps[OF dec this] show ?thesis .
    next
      case (Some ann)
      let ?m = "\<lparr>name = group match 1, inputType = group match 2, outputType = group match 3,
                 httpMethod = annMethod ann, httpPath = annPath ann, body = annBody ann\<rparr>"
      from Some \<open>regexExec rpcStartRegex serviceBody lastIndex = Some match\<close> less.prems
      have "extractMethodsLoop serviceBody ?e (acc @ [?m]) = Some ms"
        by (subst (asm) extractMethodsLoop.simps) (simp add: Let_def)
      from less.hyps[OF dec this] obtain new where new: "ms = (acc @ [?m]) @ new"
        "\<forall>m\<in>set new. \<exists>i match ann.
           regexExec rpcStartRegex serviceBody i = Some match
         \<and> includes_str (extractBracedContent serviceBody (index match + length (group match 0)))
               (js ''google.api.http'')
         \<and> parseHttpAnnotation (extractBracedContent serviceBody (index match + length (group match 0)))
               = Some ann
         \<and> m = \<lparr>name = group match 1, inputType = group match 2, outputType = group match 3,
                 httpMethod = annMethod ann, httpPath = annPath ann, body = annBody ann\<rparr>"
        by blast
      have "\<exists>i match' ann'.
           regexExec rpcStartRegex serviceBody i = Some match'
         \<and> includes_str (extractBracedContent serviceBody (index match' + length (group match' 0)))
               (js ''google.api.http'')
         \<and> parseHttpAnnotation (extractBracedContent serviceBody (index match' + length (group match' 0)))
               = Some ann'
         \<and> ?m = \<lparr>name = group match' 1, inputType = group match' 2, outputType = group match' 3,
                 httpMethod = annMethod ann', httpPath = annPath ann', body = annBody ann'\<rparr>"
        using \<open>regexExec rpcStartRegex serviceBody lastIndex = Some match\<close> Some
          parseHttpAnnotation_marker[OF Some] by blast
      with new show ?thesis
        by (intro exI[of _ "?m # new"]) simp
    qed
  qed
qed

lemma parseProtoFileLoop_invariant:
  "parseProtoFileLoop pkg sms acc = Some ss \<Longrightarrow>
     \<exists>new. ss = acc @ new \<and>
       (\<forall>s\<in>set new. methods s \<noteq> [] \<and> packageName s = pkg
          \<and> fullName s = (if pkg \<noteq> [] then pkg @ js ''.'' @ serviceName s else serviceName s)
          \<and> (\<exists>sm\<in>set sms. serviceName s = svcName sm
                 \<and> extractMethods (svcBody sm) = Some (methods s)))"
proof (induction sms arbitrary: acc)
  case Nil
  then show ?case by simp
next
  case (Cons sm sms)
  obtain ms where ms: "extractMethods (svcBody sm) = Some ms" using extractMethods_total by blast
  show ?case
  proof (cases "ms = []")
    case True
    with ms Cons.prems have "parseProtoFileLoop pkg sms acc = Some ss" by simp
    from Cons.IH[OF this] show ?thesis by auto
  next
    case False
    let ?s = "\<lparr>packageName = pkg, serviceName = svcName sm,
               fullName = (if pkg \<noteq> [] then pkg @ js ''.'' @ svcName sm else svcName sm),
               methods = ms\<rparr>"
    from False ms Cons.prems have "parseProtoFileLoop pkg sms (acc @ [?s]) = Some ss" by simp
    from Cons.IH[OF this] obtain new where new: "ss = (acc @ [?s]) @ new"
      "\<forall>s\<in>set new. methods s \<noteq> [] \<and> packageName s = pkg
          \<and> fullName s = (if pkg \<noteq> [] then pkg @ js ''.'' @ serviceName s else serviceName s)
          \<and> (\<exists>sm\<in>set sms. serviceName s = svcName sm
                 \<and> extractMethods (svcBody sm) = Some (methods s))"
      by blast
    with False ms show ?thesis
      by (intro exI[of _ "?s # new"]) auto
  qed
qed

lemma parseProtoFilesLoop_within_limit:
  "those (map parseProtoFile files) = Some sss \<Longrightarrow>
   (\<And>ss. ss \<in> set sss \<Longrightarrow> length ss \<le> maxArguments) \<Longrightarrow>
     parseProtoFilesLoop maxArguments files acc = Some (Inr (acc @ concat sss))"
proof (induction files arbitrary: acc sss)
  case Nil
  then show ?case by simp
next
  case (Cons f fs)
  from Cons.prems(1) obtain ss rest where f: "parseProtoFile f = Some ss"
    and fs: "those (map parseProtoFile fs) = Some rest" and sss: "sss = ss # rest"
    by (auto split: option.splits)
  from Cons.prems(2) sss have l: "length ss \<le> maxArguments"
    and r: "\<And>t. t \<in> set rest \<Longrightarrow> length t \<le> maxArguments" by auto
  from Cons.IH[OF fs r] f l sss show ?case by simp
qed

lemma parseProtoFilesLoop_beyond_limit:
  "parseProtoFile f = Some ss \<Longrightarrow> maxArguments < length ss \<Longrightarrow>
     parseProtoFilesLoop maxArguments (f # fs) acc = Some (Inl RangeError)"
  by simp

lemma those_parseProtoFile: "\<exists>sss. those (map parseProtoFile files) = Some sss"
proof (induction files)
  case Nil
  then show ?case by simp
next
  case (Cons f fs)
  obtain r where "parseProtoFile f = Some r" using parseProtoFile_total by blast
  with Cons show ?case by auto
qed

lemma parseProtoFiles_within_limit:
  "those (map parseProtoFile files) = Some sss \<Longrightarrow>
   \<forall>ss\<in>set sss. length ss \<le> maxArguments \<Longrightarrow>
     parseProtoFiles maxArguments files = Some (Inr (concat sss))"
  unfolding parseProtoFiles_def
  using parseProtoFilesLoop_within_limit[of files sss maxArguments "[]"] by simp

section \<open>Evaluating the parser on a given text\<close>

lemma extractServicesLoop_eval:
  "extractServicesLoop content lastIndex services =
     (case regexExec serviceRegex content lastIndex of
        None \<Rightarrow> Some services
      | Some m \<Rightarrow> servicesStep content services m
                    (extractBracedContent content (index m + length (whole m))))"
  by (subst extractServicesLoop.simps)
     (simp add: servicesStep_def Let_def group_def split: option.splits)

lemma extractMethodsLoop_eval:
  "extractMethodsLoop serviceBody lastIndex ms =
     (case regexExec rpcStartRegex serviceBody lastIndex of
        None \<Rightarrow> Some ms
      | Some m \<Rightarrow> methodsStep serviceBody ms m
                    (parseHttpAnnotation
                       (extractBracedContent serviceBody (index m + length (whole m)))))"
  by (subst extractMethodsLoop.simps)
     (simp add: methodsStep_def Let_def group_def split: option.splits)

lemmas eval_defs =
  js_def slice_def toLowerCase_def lowerUnit_def upperUnit_def
  isSpace_def isWord_def isQuote_def isLineTerminator_def openGroup_def
  group_def regexExec_def stringMatch_def lit_def litI_def
  packageRegex_def serviceRegex_def rpcStartRegex_def pathRegex_def bodyRegex_def
  extractPackageName_def extractBracedContent_def extractServices_def httpMethods_def
  parseHttpAnnotation_def extractMethods_def parseProtoFile_def parseProtoFiles_def
  scanBraces_scanFrom extractServicesLoop_eval servicesStep_def
  extractMethodsLoop_eval methodsStep_def

lemma protoText_services:
  "extractServices protoText
     = Some [\<lparr>svcName = js ''S'', svcBody = serviceBodyS\<rparr>,
             \<lparr>svcName = js ''T'', svcBody = js ''rpc K(Q)returns(R){}''\<rparr>]"
  by (simp add: eval_defs protoText_def serviceBodyS_def)

lemma serviceBodyS_methods:
  "extractMethods serviceBodyS
     = Some [\<lparr>name = js ''G'', inputType = js ''Q'', outputType = js ''R'',
              httpMethod = GET, httpPath = js ''/g'', body = None\<rparr>]"
  by (simp add: eval_defs serviceBodyS_def)

lemma bodyT_methods: "extractMethods (js ''rpc K(Q)returns(R){}'') = Some []"
  by (simp add: eval_defs)

lemma protoText_package:
  "stringMatch protoText packageRegex
     = Some \<lparr>index = 0, whole = js ''package a;'', groups = [js ''a'']\<rparr>"
  by (simp add: eval_defs protoText_def)

lemma protoText_parse:
  "parseProtoFile protoText
     = Some [\<lparr>packageName = js ''a'', serviceName = js ''S'', fullName = js ''a.S'',
              methods = [\<lparr>name = js ''G'', inputType = js ''Q'', outputType = js ''R'',
                          httpMethod = GET, httpPath = js ''/g'', body = None\<rparr>]\<rparr>]"
  unfolding parseProtoFile_def protoText_services extractPackageName_def protoText_package
  by (simp add: serviceBodyS_methods bodyT_methods group_def) (simp add: js_def)

lemma protoText2_package: "stringMatch protoText2 packageRegex = None"
  by (simp add: eval_defs protoText2_def)

lemma protoText2_parse:
  "parseProtoFile protoText2
     = Some [\<lparr>packageName = [], serviceName = js ''S'', fullName = js ''S'',
              methods = [\<lparr>name = js ''G'', inputType = js ''Q'', outputType = js ''R'',
                          httpMethod = GET, httpPath = js ''/g'', body = None\<rparr>]\<rparr>]"
  by (simp add: eval_defs protoText2_def)

section \<open>A text of any number of services\<close>

text \<open>\<open>parseProtoFile\<close> on \<open>manyServices n\<close> returns the service \<open>S\<close> \<open>n\<close> times: each
  search of the scanning loop starts behind the opening brace of one copy of
  \<open>serviceText\<close> and finds the next copy, and no copy holds a package declaration.\<close>

lemma serviceText_split: "serviceText = js ''service S{'' @ serviceTextBody @ js ''}''"
  by (simp add: serviceText_def serviceTextBody_def js_def)

lemma length_serviceText: "length serviceText = 59"
  by (simp add: serviceText_def js_def)

lemma manyServices_Suc: "manyServices (Suc n) = serviceText @ manyServices n"
  by (simp add: manyServices_def)

lemma serviceText_found:
  "searchAt serviceRegex i prev (serviceText @ rest)
     = Some \<lparr>index = i, whole = js ''service S{'', groups = [js ''S'']\<rparr>"
  by (simp add: eval_defs serviceText_def)

lemma serviceText_skip:
  "searchAt serviceRegex i prev (serviceTextBody @ js ''}'' @ rest)
     = searchAt serviceRegex (i + 49) (Some (of_char CHR ''}'')) rest"
  apply (simp add: eval_defs serviceTextBody_def searchAt_step del: searchAt.simps)
  apply (rule searchAt_index_cong)
  apply arith
  done

lemma serviceText_staysOpen:
  "staysOpen 1 serviceTextBody
   \<and> count_list serviceTextBody (of_char CHR ''{'') = count_list serviceTextBody (of_char CHR ''}'')"
  by (simp add: serviceTextBody_def js_def)

lemma serviceText_body:
  "extractBracedContent (pre @ serviceText @ rest) (length pre + 10) = serviceTextBody"
proof -
  have l: "length (pre @ js ''service S{'') = length pre + 10" by (simp add: js_def)
  have c: "pre @ serviceText @ rest
             = (pre @ js ''service S{'') @ serviceTextBody @ of_char CHR ''}'' # rest"
    by (simp add: serviceText_split js_def)
  have "extractBracedContent ((pre @ js ''service S{'') @ serviceTextBody @ of_char CHR ''}'' # rest)
          (length (pre @ js ''service S{'')) = serviceTextBody"
    by (rule extractBracedContent_closed[OF conjunct1[OF serviceText_staysOpen]
                                            conjunct2[OF serviceText_staysOpen]])
  then show ?thesis by (simp only: l c)
qed

lemma extractServicesLoop_found:
  "regexExec serviceRegex content lastIndex = Some m \<Longrightarrow>
   i = index m + length (whole m) \<Longrightarrow>
   extractBracedContent content i = b \<Longrightarrow> b \<noteq> [] \<Longrightarrow>
     extractServicesLoop content lastIndex services
       = extractServicesLoop content i (services @ [\<lparr>svcName = group m 1, svcBody = b\<rparr>])"
  by (subst extractServicesLoop_eval) (simp add: servicesStep_def)

lemma serviceText_next:
  "regexExec serviceRegex (pre @ serviceText @ rest) (length pre + 10)
     = searchAt serviceRegex (length pre + 59) (Some (of_char CHR ''}'')) rest"
proof -
  have d: "drop 10 (serviceText @ rest) = serviceTextBody @ js ''}'' @ rest"
    by (simp add: serviceText_split js_def)
  have "regexExec serviceRegex (pre @ (serviceText @ rest)) (length pre + 10)
          = searchAt serviceRegex (length pre + 10)
              (if length pre + 10 = 0 then None
               else Some ((pre @ (serviceText @ rest)) ! (length pre + 10 - 1)))
              (drop 10 (serviceText @ rest))"
    by (rule regexExec_append) (simp add: length_serviceText)
  also have "\<dots> = searchAt serviceRegex (length pre + 10 + 49) (Some (of_char CHR ''}'')) rest"
    unfolding d by (rule serviceText_skip)
  finally show ?thesis by (simp add: add.assoc)
qed

lemma extractServicesLoop_manyServices:
  "extractServicesLoop (pre @ serviceText @ manyServices n) (length pre + 10) acc
     = Some (acc @ replicate n \<lparr>svcName = js ''S'', svcBody = serviceTextBody\<rparr>)"
proof (induction n arbitrary: pre acc)
  case 0
  have "regexExec serviceRegex (pre @ serviceText @ []) (length pre + 10) = None"
    unfolding serviceText_next by (simp add: eval_defs)
  then show ?case
    by (subst extractServicesLoop.simps) (simp add: manyServices_def)
next
  case (Suc n)
  let ?c = "pre @ serviceText @ serviceText @ manyServices n"
  let ?m = "\<lparr>index = length pre + 59, whole = js ''service S{'', groups = [js ''S'']\<rparr>"
  let ?sm = "\<lparr>svcName = js ''S'', svcBody = serviceTextBody\<rparr>"
  have r: "regexExec serviceRegex ?c (length pre + 10) = Some ?m"
    unfolding serviceText_next by (rule serviceText_found)
  have l: "length (pre @ serviceText) + 10 = length pre + 69"
    by (simp add: length_serviceText)
  have b: "extractBracedContent ?c (length pre + 69) = serviceTextBody"
    using serviceText_body[of "pre @ serviceText" "manyServices n"] unfolding l by simp
  have ne: "serviceTextBody \<noteq> []" by (simp add: serviceTextBody_def js_def)
  have i: "length pre + 69 = index ?m + length (whole ?m)" by (simp add: js_def)
  have "extractServicesLoop ?c (length pre + 10) acc
          = extractServicesLoop ?c (length pre + 69) (acc @ [\<lparr>svcName = group ?m 1, svcBody = serviceTextBody\<rparr>])"
    by (rule extractServicesLoop_found[OF r i b ne])
  also have "\<dots> = extractServicesLoop ((pre @ serviceText) @ serviceText @ manyServices n)
                      (length (pre @ serviceText) + 10) (acc @ [?sm])"
    unfolding l by (simp add: group_def)
  also have "\<dots> = Some ((acc @ [?sm]) @ replicate n ?sm)"
    by (rule Suc.IH)
  finally show ?case by (simp add: manyServices_Suc)
qed

lemma extractServices_manyServices:
  "extractServices (manyServices n)
     = Some (replicate n \<lparr>svcName = js ''S'', svcBody = serviceTextBody\<rparr>)"
proof (cases n)
  case 0
  have "regexExec serviceRegex [] 0 = None" by (simp add: eval_defs)
  then show ?thesis
    unfolding extractServices_def 0 by (subst extractServicesLoop.simps) (simp add: manyServices_def)
next
  case (Suc k)
  let ?c = "serviceText @ manyServices k"
  let ?m = "\<lparr>index = 0, whole = js ''service S{'', groups = [js ''S'']\<rparr>"
  let ?sm = "\<lparr>svcName = js ''S'', svcBody = serviceTextBody\<rparr>"
  have r: "regexExec serviceRegex ?c 0 = Some ?m"
    unfolding regexExec_def using serviceText_found[of 0 None "manyServices k"] by simp
  have b: "extractBracedContent ?c 10 = serviceTextBody"
    using serviceText_body[of "[]" "manyServices k"] by simp
  have ne: "serviceTextBody \<noteq> []" by (simp add: serviceTextBody_def js_def)
  have i: "10 = index ?m + length (whole ?m)" by (simp add: js_def)
  have "extractServicesLoop ?c 0 []
          = extractServicesLoop ?c 10 ([] @ [\<lparr>svcName = group ?m 1, svcBody = serviceTextBody\<rparr>])"
    by (rule extractServicesLoop_found[OF r i b ne])
  also have "\<dots> = extractServicesLoop ([] @ serviceText @ manyServices k) (length ([] :: jsstring) + 10) [?sm]"
    by (simp add: group_def)
  also have "\<dots> = Some ([?sm] @ replicate k ?sm)"
    by (rule extractServicesLoop_manyServices)
  finally show ?thesis by (simp add: extractServices_def Suc manyServices_Suc)
qed

lemma matchHere_LineStart_None:
  "matchHere ns prev s = None \<Longrightarrow> matchHere (LineStart # ns) prev s = None"
  by (cases prev) simp_all

lemma packageRegex_skip:
  "searchAt packageRegex i prev (serviceText @ rest)
     = searchAt packageRegex (i + 59) (Some (of_char CHR ''}'')) rest"
  apply (simp add: eval_defs serviceText_def searchAt_step matchHere_LineStart_None
              del: searchAt.simps matchHere.simps(2))
  apply (rule searchAt_index_cong)
  apply arith
  done

lemma packageRegex_manyServices: "searchAt packageRegex i prev (manyServices n) = None"
proof (induction n arbitrary: i prev)
  case 0
  have "matchHere packageRegex prev [] = None"
    by (simp add: eval_defs matchHere_LineStart_None del: matchHere.simps(2))
  then show ?case by (simp add: manyServices_def)
next
  case (Suc n)
  show ?case unfolding manyServices_Suc packageRegex_skip by (rule Suc.IH)
qed

lemma extractPackageName_manyServices: "extractPackageName (manyServices n) = []"
  by (simp add: extractPackageName_def stringMatch_def regexExec_def packageRegex_manyServices
           del: searchAt.simps)

lemma serviceTextBody_methods:
  "extractMethods serviceTextBody
     = Some [\<lparr>name = js ''G'', inputType = js ''Q'', outputType = js ''R'',
              httpMethod = GET, httpPath = js ''/g'', body = None\<rparr>]"
  by (simp add: eval_defs serviceTextBody_def)

lemma parseProtoFileLoop_manyServices:
  "parseProtoFileLoop [] (replicate n \<lparr>svcName = js ''S'', svcBody = serviceTextBody\<rparr>) acc
     = Some (acc @ replicate n serviceS)"
proof (induction n arbitrary: acc)
  case 0
  show ?case by simp
next
  case (Suc n)
  show ?case
    by (simp add: serviceTextBody_methods Suc.IH serviceS_def replicate_app_Cons_same)
qed

lemma parseProtoFile_manyServices:
  "parseProtoFile (manyServices n) = Some (replicate n serviceS)"
  by (simp add: parseProtoFile_def extractServices_manyServices extractPackageName_manyServices
                parseProtoFileLoop_manyServices)

section \<open>The tests of the repository\<close>

text \<open>What the tests expect of \<open>parseProtoFile\<close> and of \<open>getConnectPath\<close> holds of the
  definitions above.\<close>

lemma test_empty_service: "parseProtoFile testEmptyService = Some []"
  by (simp add: eval_defs testEmptyService_def)

lemma test_post_with_body:
  "parseProtoFile testPostWithBody
     = Some [\<lparr>packageName = js ''users.v1'', serviceName = js ''UserService'',
              fullName = js ''users.v1.UserService'',
              methods = [\<lparr>name = js ''CreateUser'', inputType = js ''CreateUserRequest'',
                          outputType = js ''CreateUserResponse'', httpMethod = POST,
                          httpPath = js ''/v1/users'', body = Some (js ''*'')\<rparr>]\<rparr>]"
  by (simp add: eval_defs testPostWithBody_def)

lemma test_skips_methods_without_annotation:
  "parseProtoFile testMixedService
     = Some [\<lparr>packageName = js ''api.v1'', serviceName = js ''MixedService'',
              fullName = js ''api.v1.MixedService'',
              methods = [\<lparr>name = js ''WithHttp'', inputType = js ''Req'',
                          outputType = js ''Res'', httpMethod = GET,
                          httpPath = js ''/with-http'', body = None\<rparr>]\<rparr>]"
  by (simp add: eval_defs testMixedService_def)

lemma test_getConnectPath:
  "getConnectPath
     \<lparr>packageName = js ''users.v1'', serviceName = js ''UserService'',
      fullName = js ''users.v1.UserService'', methods = []\<rparr>
     \<lparr>name = js ''GetUser'', inputType = js ''GetUserRequest'',
      outputType = js ''GetUserResponse'', httpMethod = GET,
      httpPath = js ''/v1/users/{user_id}'', body = None\<rparr>
   = js ''/users.v1.UserService/GetUser''"
  by (simp add: getConnectPath_def js_def)

section \<open>The claims\<close>

text \<open>
  C1. For every input text, a method is in the model only if the options block recovered
  for its \<open>rpc\<close> declaration contains the marker \<open>google.api.http\<close>: a block
  without the marker gives no annotation, a round of the method loop that meets such a
  block leaves the list as it was, and every method of every returned service was built
  from a declaration found in that service's body whose block has the marker. No
  returned service has an empty list of methods, so a service all of whose methods are
  excluded is not returned.
\<close>

theorem annotation_presence_filter:
  "(\<not> includes_str optionsBlock (js ''google.api.http'')
      \<longrightarrow> parseHttpAnnotation optionsBlock = None)
   \<and> (regexExec rpcStartRegex serviceBody lastIndex = Some match
        \<and> \<not> includes_str
               (extractBracedContent serviceBody (index match + length (group match 0)))
               (js ''google.api.http'')
      \<longrightarrow> extractMethodsLoop serviceBody lastIndex ms
            = extractMethodsLoop serviceBody (index match + length (group match 0)) ms)
   \<and> (\<exists>services serviceMatches.
         parseProtoFile content = Some services \<and> extractServices content = Some serviceMatches
       \<and> (\<forall>s\<in>set services. methods s \<noteq> []
            \<and> (\<exists>sm\<in>set serviceMatches. serviceName s = svcName sm
                 \<and> extractMethods (svcBody sm) = Some (methods s)
                 \<and> (\<forall>m\<in>set (methods s). \<exists>i rpc ann.
                        regexExec rpcStartRegex (svcBody sm) i = Some rpc
                      \<and> includes_str
                           (extractBracedContent (svcBody sm) (index rpc + length (group rpc 0)))
                           (js ''google.api.http'')
                      \<and> parseHttpAnnotation
                           (extractBracedContent (svcBody sm) (index rpc + length (group rpc 0)))
                          = Some ann
                      \<and> m = \<lparr>name = group rpc 1, inputType = group rpc 2,
                              outputType = group rpc 3, httpMethod = annMethod ann,
                              httpPath = annPath ann, body = annBody ann\<rparr>))))"
  (is "?noMarker \<and> ?skip \<and> (\<exists>services serviceMatches. ?model services serviceMatches)")
proof (intro conjI)
  show ?noMarker by (simp add: parseHttpAnnotation_def)
next
  show ?skip using extractMethodsLoop_skip by blast
next
  obtain sms where sms: "extractServices content = Some sms"
    using extractServices_total by blast
  obtain ss where ss: "parseProtoFileLoop (extractPackageName content) sms [] = Some ss"
    using parseProtoFileLoop_total by blast
  from sms ss have p: "parseProtoFile content = Some ss" by (simp add: parseProtoFile_def)
  have "?model ss sms"
  proof (intro conjI ballI)
    show "parseProtoFile content = Some ss" by (rule p)
    show "extractServices content = Some sms" by (rule sms)
  next
    fix s assume "s \<in> set ss"
    with parseProtoFileLoop_invariant[OF ss] show "methods s \<noteq> []" by auto
  next
    fix s assume "s \<in> set ss"
    with parseProtoFileLoop_invariant[OF ss] obtain sm where sm:
      "sm \<in> set sms" "serviceName s = svcName sm"
      "extractMethods (svcBody sm) = Some (methods s)"
      by auto
    from sm(3) have "extractMethodsLoop (svcBody sm) 0 [] = Some (methods s)"
      by (simp add: extractMethods_def)
    from extractMethodsLoop_provenance[OF this] sm
    show "\<exists>sm\<in>set sms. serviceName s = svcName sm
                 \<and> extractMethods (svcBody sm) = Some (methods s)
                 \<and> (\<forall>m\<in>set (methods s). \<exists>i rpc ann.
                        regexExec rpcStartRegex (svcBody sm) i = Some rpc
                      \<and> includes_str
                           (extractBracedContent (svcBody sm) (index rpc + length (group rpc 0)))
                           (js ''google.api.http'')
                      \<and> parseHttpAnnotation
                           (extractBracedContent (svcBody sm) (index rpc + length (group rpc 0)))
                          = Some ann
                      \<and> m = \<lparr>name = group rpc 1, inputType = group rpc 2,
                              outputType = group rpc 3, httpMethod = annMethod ann,
                              httpPath = annPath ann, body = annBody ann\<rparr>)"
      by auto
  qed
  then show "\<exists>services serviceMatches. ?model services serviceMatches" by blast
qed

text \<open>On \<open>protoText\<close>: the declaration of \<open>H\<close>, found from position 19 of the body of
  \<open>S\<close>, has the empty options block, and the round leaves the list as it was; the model
  has the service \<open>S\<close> with the method \<open>G\<close> alone, and no service \<open>T\<close>.\<close>

theorem annotation_presence_filter_witness:
  "parseHttpAnnotation [] = None
   \<and> regexExec rpcStartRegex serviceBodyS 19
       = Some \<lparr>index = 48, whole = js ''rpc H(Q)returns(R){'',
               groups = [js ''H'', js ''Q'', js ''R'']\<rparr>
   \<and> extractBracedContent serviceBodyS 67 = []
   \<and> extractMethodsLoop serviceBodyS 19 [] = extractMethodsLoop serviceBodyS 67 []
   \<and> (\<exists>services. parseProtoFile protoText = Some services
         \<and> map serviceName services = [js ''S'']
         \<and> map (map name \<circ> methods) services = [[js ''G'']]
         \<and> list_all (\<lambda>s. methods s \<noteq> []) services)"
proof -
  let ?H = "\<lparr>index = 48, whole = js ''rpc H(Q)returns(R){'',
             groups = [js ''H'', js ''Q'', js ''R'']\<rparr>"
  have h1: "\<not> includes_str [] (js ''google.api.http'')" by (simp add: js_def)
  have r: "regexExec rpcStartRegex serviceBodyS 19 = Some ?H"
    by (simp add: eval_defs serviceBodyS_def)
  have e: "index ?H + length (group ?H 0) = 67" by (simp add: group_def js_def)
  have b: "extractBracedContent serviceBodyS 67 = []" by (simp add: eval_defs serviceBodyS_def)
  have h2: "regexExec rpcStartRegex serviceBodyS 19 = Some ?H
        \<and> \<not> includes_str (extractBracedContent serviceBodyS (index ?H + length (group ?H 0)))
               (js ''google.api.http'')"
    using r h1 by (simp only: e b) simp
  note T = annotation_presence_filter[of "[]" serviceBodyS 19 ?H "[]" protoText]
  note c1 = mp[OF conjunct1[OF T] h1]
  note c2 = mp[OF conjunct1[OF conjunct2[OF T]] h2]
  note c3 = conjunct2[OF conjunct2[OF T]]
  from c2 have c2': "extractMethodsLoop serviceBodyS 19 [] = extractMethodsLoop serviceBodyS 67 []"
    by (simp only: e)
  from c3 protoText_parse
  have c3': "\<exists>services. parseProtoFile protoText = Some services
         \<and> map serviceName services = [js ''S'']
         \<and> map (map name \<circ> methods) services = [[js ''G'']]
         \<and> list_all (\<lambda>s. methods s \<noteq> []) services"
    by (auto simp: list_all_iff)
  from c1 r b c2' c3' show ?thesis by blast
qed

text \<open>
  C2, as amended. With the marker present, \<open>parseHttpAnnotation\<close> tries the verbs in
  the order \<open>GET, POST, PUT, PATCH, DELETE\<close> and returns the first verb whose pattern
  matches, with the path captured by the leftmost match of that pattern. A block that
  contains \<open>get: "/a"\<close> (in any letter case of the keyword, with either quote) is bound
  to \<open>GET\<close> whatever else it contains, \<open>post: "/b"\<close> included; the path is \<open>/a\<close>
  when that pair is where the \<open>get\<close> pattern first matches.
\<close>

theorem verb_precedence:
  "includes_str block (js ''google.api.http'') \<longrightarrow>
     (httpMethods = before @ v # after
        \<and> (\<forall>u\<in>set before.
              stringMatch block (pathRegex (toLowerCase (methodString u))) = None)
        \<and> stringMatch block (pathRegex (toLowerCase (methodString v))) = Some m
      \<longrightarrow> parseHttpAnnotation block
            = Some \<lparr>annMethod = v, annPath = group m 1,
                    annBody = (case stringMatch block bodyRegex of
                                 Some bodyMatch \<Rightarrow> Some (group bodyMatch 1)
                               | None \<Rightarrow> None)\<rparr>)
   \<and> (block = pre @ kw @ js '': '' @ [q1] @ js ''/a'' @ [q2] @ post
        \<and> map upperUnit kw = js ''GET'' \<and> isQuote q1 \<and> isQuote q2
      \<longrightarrow> (\<exists>p b. parseHttpAnnotation block
                   = Some \<lparr>annMethod = GET, annPath = p, annBody = b\<rparr>)
          \<and> (map_option index (stringMatch block (pathRegex (js ''get''))) = Some (length pre)
               \<longrightarrow> (\<exists>b. parseHttpAnnotation block
                           = Some \<lparr>annMethod = GET, annPath = js ''/a'', annBody = b\<rparr>)))"
  (is "?marker \<longrightarrow> (?firstMatch \<longrightarrow> ?result) \<and> (?shape \<longrightarrow> ?isGet \<and> (?leftmost \<longrightarrow> ?pathA))")
proof (intro impI conjI)
  assume marker: ?marker and ?firstMatch
  then show ?result
    using parseHttpAnnotationLoop_first[of before block v m after]
    by (simp add: parseHttpAnnotation_def)
next
  assume marker: ?marker and shape: ?shape
  then have here: "\<And>prev. matchHere (pathRegex (js ''get'')) prev (drop (length pre) block)
                            = Some ([js ''/a''], post)"
    using get_pair_matches[of kw q1 q2 _ post] by simp
  have "length pre \<le> length block" using shape by simp
  from stringMatch_complete[OF this, of "pathRegex (js ''get'')"] here
  obtain m' where m': "stringMatch block (pathRegex (js ''get'')) = Some m'" by auto
  then have "stringMatch block (pathRegex (toLowerCase (methodString GET))) = Some m'"
    by (simp only: lower_GET)
  from parseHttpAnnotationLoop_first[of "[]" block GET m' "[POST, PUT, PATCH, DELETE]", OF _ this]
    marker
  have r: "parseHttpAnnotation block
            = Some \<lparr>annMethod = GET, annPath = group m' 1,
                    annBody = (case stringMatch block bodyRegex of
                                 Some bodyMatch \<Rightarrow> Some (group bodyMatch 1)
                               | None \<Rightarrow> None)\<rparr>"
    by (simp add: parseHttpAnnotation_def httpMethods_def)
  then show ?isGet by blast
  assume ?leftmost
  with m' have i: "index m' = length pre" by simp
  from stringMatch_sound[OF m'] i here have "groups m' = [js ''/a'']" by auto
  then have "group m' 1 = js ''/a''" by (simp add: group_def)
  with r show ?pathA by simp
qed

text \<open>On \<open>twoVerbsBlock\<close>: both patterns match, and the binding is \<open>GET /a\<close>.\<close>

theorem verb_precedence_witness:
  "includes_str twoVerbsBlock (js ''google.api.http'')
   \<and> stringMatch twoVerbsBlock (pathRegex (js ''get''))
       = Some \<lparr>index = 22, whole = js ''get: \"/a\"'', groups = [js ''/a'']\<rparr>
   \<and> stringMatch twoVerbsBlock (pathRegex (js ''post''))
       = Some \<lparr>index = 32, whole = js ''post: \"/b\"'', groups = [js ''/b'']\<rparr>
   \<and> parseHttpAnnotation twoVerbsBlock
       = Some \<lparr>annMethod = GET, annPath = js ''/a'', annBody = None\<rparr>"
proof -
  let ?m = "\<lparr>index = 22, whole = js ''get: \"/a\"'', groups = [js ''/a'']\<rparr>"
  let ?pre = "js ''(google.api.http) = { ''"
  let ?post = "js '' post: \"/b\" }''"
  have mk: "includes_str twoVerbsBlock (js ''google.api.http'')"
    by (simp add: js_def twoVerbsBlock_def)
  have g: "stringMatch twoVerbsBlock (pathRegex (js ''get'')) = Some ?m"
    by (simp add: eval_defs twoVerbsBlock_def)
  have p: "stringMatch twoVerbsBlock (pathRegex (js ''post''))
       = Some \<lparr>index = 32, whole = js ''post: \"/b\"'', groups = [js ''/b'']\<rparr>"
    by (simp add: eval_defs twoVerbsBlock_def)
  have b: "stringMatch twoVerbsBlock bodyRegex = None" by (simp add: eval_defs twoVerbsBlock_def)
  have h1: "httpMethods = [] @ GET # [POST, PUT, PATCH, DELETE]
        \<and> (\<forall>u\<in>set [].
              stringMatch twoVerbsBlock (pathRegex (toLowerCase (methodString u))) = None)
        \<and> stringMatch twoVerbsBlock (pathRegex (toLowerCase (methodString GET))) = Some ?m"
    using g httpMethods_GET by (simp only: lower_GET) simp
  have h2: "twoVerbsBlock = ?pre @ js ''get'' @ js '': '' @ [34] @ js ''/a'' @ [34] @ ?post
        \<and> map upperUnit (js ''get'') = js ''GET'' \<and> isQuote 34 \<and> isQuote 34"
    by (simp add: js_def upperUnit_def isQuote_def twoVerbsBlock_def)
  have h3: "map_option index (stringMatch twoVerbsBlock (pathRegex (js ''get'')))
              = Some (length ?pre)"
    by (simp add: g) (simp add: js_def)
  note both = mp[OF verb_precedence[of twoVerbsBlock "[]" GET "[POST, PUT, PATCH, DELETE]" ?m
      ?pre "js ''get''" 34 34 ?post] mk]
  note c1 = mp[OF conjunct1[OF both] h1]
  note c2 = mp[OF conjunct2[OF both] h2]
  note c3 = mp[OF conjunct2[OF c2] h3]
  from c1 c3 b
  have "parseHttpAnnotation twoVerbsBlock
          = Some \<lparr>annMethod = GET, annPath = js ''/a'', annBody = None\<rparr>"
    by auto
  with mk g p show ?thesis by simp
qed

text \<open>
  C2 as it is worded gives the path \<open>/a\<close> to every block with the marker,
  \<open>get: "/a"\<close> and \<open>post: "/b"\<close>. In \<open>additionalBindingsBlock\<close> the first \<open>get\<close> pair
  is the primary binding \<open>get: "/c"\<close>, the two pairs stand in the additional bindings,
  and the path returned is \<open>/c\<close>.
\<close>

theorem verb_precedence_counterexample:
  "includes_str additionalBindingsBlock (js ''google.api.http'')
   \<and> includes_str additionalBindingsBlock (js ''get: \"/a\"'')
   \<and> includes_str additionalBindingsBlock (js ''post: \"/b\"'')
   \<and> parseHttpAnnotation additionalBindingsBlock
       = Some \<lparr>annMethod = GET, annPath = js ''/c'', annBody = None\<rparr>
   \<and> js ''/c'' \<noteq> js ''/a''"
  by (simp add: eval_defs additionalBindingsBlock_def)



text \<open>
  C4. What the code does when the depth never returns to 0: the loop ends at the end of
  the text and the slice stops one character earlier, so the last character of the
  remaining text is lost. For \<open>unclosedText\<close>, \<open>service S {ab\<close>, the text from the
  start index 11 to the end is \<open>ab\<close>, and the code returns \<open>a\<close>.
\<close>

theorem unbalanced_braces_lose_last_character:
  "extractBracedContent unclosedText 11 = js ''a''
   \<and> extractServices unclosedText = Some [\<lparr>svcName = js ''S'', svcBody = js ''a''\<rparr>]
   \<and> slice unclosedText 11 (int (length unclosedText)) = js ''ab''"
  by (simp add: eval_defs unclosedText_def)

text \<open>
  C5. Every service returned by \<open>parseProtoFile\<close> carries the package name of the
  text, and its full name is the package name, a dot and the service name when the
  package name is not empty, and the service name alone when it is. The package name is
  empty when the package pattern matches nowhere. For a declaration
  \<open>package <dotted.identifier>;\<close> in the text (white space allowed before the keyword,
  required after it, allowed before the semicolon): if it starts the text or follows a
  line terminator, the pattern matches; if it follows another character, no match starts
  there; and if the first match of the pattern starts there, the package name is its
  identifier.
\<close>

theorem package_name_and_full_name:
  "(\<exists>services. parseProtoFile content = Some services
      \<and> (\<forall>s\<in>set services. packageName s = extractPackageName content
            \<and> fullName s = (if extractPackageName content \<noteq> []
                             then extractPackageName content @ js ''.'' @ serviceName s
                             else serviceName s)))
   \<and> (stringMatch content packageRegex = None \<longrightarrow> extractPackageName content = [])
   \<and> (content = pre @ ws0 @ js ''package'' @ ws1 @ ident @ ws2 @ js '';'' @ post
        \<and> (\<forall>x\<in>set ws0. isSpace x) \<and> ws1 \<noteq> [] \<and> (\<forall>x\<in>set ws1. isSpace x)
        \<and> ident \<noteq> [] \<and> (\<forall>x\<in>set ident. isWord x \<or> x = 46) \<and> (\<forall>x\<in>set ws2. isSpace x)
      \<longrightarrow> (pre = [] \<or> isLineTerminator (last pre)
             \<longrightarrow> stringMatch content packageRegex \<noteq> None)
          \<and> (pre \<noteq> [] \<and> \<not> isLineTerminator (last pre)
               \<longrightarrow> map_option index (stringMatch content packageRegex) \<noteq> Some (length pre))
          \<and> (map_option index (stringMatch content packageRegex) = Some (length pre)
               \<longrightarrow> extractPackageName content = ident))"
  (is "?names \<and> (?absent \<longrightarrow> ?empty)
       \<and> (?shape \<longrightarrow> (?start \<longrightarrow> ?found) \<and> (?inside \<longrightarrow> ?notHere) \<and> (?first \<longrightarrow> ?taken))")
proof (intro conjI impI)
  obtain sms where sms: "extractServices content = Some sms"
    using extractServices_total by blast
  obtain ss where ss: "parseProtoFileLoop (extractPackageName content) sms [] = Some ss"
    using parseProtoFileLoop_total by blast
  from sms ss have p: "parseProtoFile content = Some ss" by (simp add: parseProtoFile_def)
  from parseProtoFileLoop_invariant[OF ss]
  have "\<forall>s\<in>set ss. packageName s = extractPackageName content
            \<and> fullName s = (if extractPackageName content \<noteq> []
                             then extractPackageName content @ js ''.'' @ serviceName s
                             else serviceName s)"
    by auto
  with p show ?names by blast
next
  assume ?absent
  then show ?empty by (simp add: extractPackageName_def)
next
  assume shape: ?shape and start: ?start
  have pu: "prevUnit None content (length pre) = (if pre = [] then None else Some (last pre))"
    using shape by (cases pre rule: rev_cases) (auto simp: prevUnit_def nth_append)
  with start have "prevUnit None content (length pre) = None
      \<or> (\<exists>p. prevUnit None content (length pre) = Some p \<and> isLineTerminator p)"
    by auto
  from package_declaration_matches[OF this, of ws0 ws1 ident ws2 post] shape
  have "matchHere packageRegex (prevUnit None content (length pre)) (drop (length pre) content)
          = Some ([ident], post)"
    by simp
  moreover have "length pre \<le> length content" using shape by simp
  ultimately show ?found
    using stringMatch_complete[of "length pre" content packageRegex] by simp
next
  assume shape: ?shape and inside: ?inside
  have pu: "prevUnit None content (length pre) = Some (last pre)"
    using shape inside by (cases pre rule: rev_cases) (auto simp: prevUnit_def nth_append)
  show ?notHere
  proof
    assume "map_option index (stringMatch content packageRegex) = Some (length pre)"
    then obtain m where m: "stringMatch content packageRegex = Some m" "index m = length pre"
      by auto
    from stringMatch_sound[OF m(1)] m(2) pu inside packageRegex_needs_line_start[of "last pre"]
    show False by auto
  qed
next
  assume shape: ?shape and ?first
  then obtain m where m: "stringMatch content packageRegex = Some m" "index m = length pre"
    by auto
  from stringMatch_sound[OF m(1)] m(2) obtain caps rest where c:
    "matchHere packageRegex (prevUnit None content (length pre)) (drop (length pre) content)
       = Some (caps, rest)" "groups m = caps"
    by auto
  have ok: "prevUnit None content (length pre) = None
      \<or> (\<exists>p. prevUnit None content (length pre) = Some p \<and> isLineTerminator p)"
  proof (rule ccontr)
    assume "\<not> ?thesis"
    then obtain p where "prevUnit None content (length pre) = Some p" "\<not> isLineTerminator p"
      by (cases "prevUnit None content (length pre)") auto
    with c(1) packageRegex_needs_line_start[of p] show False by simp
  qed
  from package_declaration_matches[OF ok, of ws0 ws1 ident ws2 post] shape c
  have "groups m = [ident]" by simp
  with m(1) show ?taken
    by (simp add: extractPackageName_def group_def)
qed

text \<open>On \<open>protoText\<close>, whose declaration \<open>package a;\<close> starts the text, the services
  are named \<open>a.S\<close>; on \<open>protoText2\<close>, where the declaration follows \<open>x\<close> on its line,
  the pattern matches nowhere, the package name is empty and the service is named
  \<open>S\<close>.\<close>

theorem package_name_and_full_name_witness:
  "stringMatch protoText packageRegex
     = Some \<lparr>index = 0, whole = js ''package a;'', groups = [js ''a'']\<rparr>
   \<and> extractPackageName protoText = js ''a''
   \<and> (\<exists>services. parseProtoFile protoText = Some services
         \<and> map fullName services = [js ''a.S''])
   \<and> stringMatch protoText2 packageRegex = None
   \<and> extractPackageName protoText2 = []
   \<and> (\<exists>services. parseProtoFile protoText2 = Some services
         \<and> map fullName services = [js ''S''])"
proof -
  let ?post = "js ''service S{rpc G(Q)returns(R){(google.api.http)={get:\"/g\"}}rpc H(Q)returns(R){}}service T{rpc K(Q)returns(R){}}''"
  let ?post2 = "js ''service S{rpc G(Q)returns(R){(google.api.http)={get:\"/g\"}}}''"
  have s1: "protoText = [] @ [] @ js ''package'' @ js '' '' @ js ''a'' @ [] @ js '';'' @ ?post
        \<and> (\<forall>x\<in>set []. isSpace x) \<and> js '' '' \<noteq> [] \<and> (\<forall>x\<in>set (js '' ''). isSpace x)
        \<and> js ''a'' \<noteq> [] \<and> (\<forall>x\<in>set (js ''a''). isWord x \<or> x = 46)
        \<and> (\<forall>x\<in>set []. isSpace x)"
    by (simp add: js_def isSpace_def isWord_def protoText_def)
  have s2: "protoText2
          = js ''x'' @ js '' '' @ js ''package'' @ js '' '' @ js ''a'' @ [] @ js '';'' @ ?post2
        \<and> (\<forall>x\<in>set (js '' ''). isSpace x) \<and> js '' '' \<noteq> [] \<and> (\<forall>x\<in>set (js '' ''). isSpace x)
        \<and> js ''a'' \<noteq> [] \<and> (\<forall>x\<in>set (js ''a''). isWord x \<or> x = 46)
        \<and> (\<forall>x\<in>set []. isSpace x)"
    by (simp add: js_def isSpace_def isWord_def protoText2_def)
  have i1: "map_option index (stringMatch protoText packageRegex) = Some (length ([]::jsstring))"
    by (simp add: protoText_package)
  have l1: "([]::jsstring) = [] \<or> isLineTerminator (last [])" by simp
  have l2: "js ''x'' \<noteq> [] \<and> \<not> isLineTerminator (last (js ''x''))"
    by (simp add: js_def isLineTerminator_def)
  note T1 = package_name_and_full_name[of protoText "[]" "[]" "js '' ''" "js ''a''" "[]" ?post]
  note T2 = package_name_and_full_name[of protoText2 "js ''x''" "js '' ''" "js '' ''" "js ''a''"
      "[]" ?post2]
  note a1 = conjunct1[OF T1]
  note shape1 = mp[OF conjunct2[OF conjunct2[OF T1]] s1]
  note found1 = mp[OF conjunct1[OF shape1] l1]
  note name1 = mp[OF conjunct2[OF conjunct2[OF shape1]] i1]
  note a2 = conjunct1[OF T2]
  note none2 = mp[OF conjunct1[OF conjunct2[OF T2]] protoText2_package]
  note shape2 = mp[OF conjunct2[OF conjunct2[OF T2]] s2]
  note notstart2 = mp[OF conjunct1[OF conjunct2[OF shape2]] l2]
  from a1 protoText_parse
  have f1: "\<exists>services. parseProtoFile protoText = Some services
              \<and> map fullName services = [js ''a.S'']"
    by auto
  from a2 protoText2_parse
  have f2: "\<exists>services. parseProtoFile protoText2 = Some services
              \<and> map fullName services = [js ''S'']"
    by auto
  from protoText_package name1 f1 protoText2_package none2 f2 show ?thesis by blast
qed

text \<open>
  C6. Whenever \<open>parseHttpAnnotation\<close> returns a binding, its body selector is the
  result of one search of the same options block for the body pattern, whichever verb
  matched: the captured value when the pattern occurs, absent when it does not. When the
  first match of the pattern is a pair \<open>body: "v"\<close> (white space allowed around the
  colon, either quote, \<open>v\<close> not empty and free of quotes), the selector is \<open>v\<close> as
  it stands.
\<close>

theorem body_selector_is_a_separate_search:
  "parseHttpAnnotation optionsBlock = Some a \<longrightarrow>
     annBody a = (case stringMatch optionsBlock bodyRegex of
                    Some bodyMatch \<Rightarrow> Some (group bodyMatch 1) | None \<Rightarrow> None)
   \<and> (optionsBlock = pre @ js ''body'' @ ws1 @ js '':'' @ ws2 @ [q1] @ v @ [q2] @ post
        \<and> (\<forall>x\<in>set ws1. isSpace x) \<and> (\<forall>x\<in>set ws2. isSpace x) \<and> isQuote q1 \<and> isQuote q2
        \<and> v \<noteq> [] \<and> (\<forall>x\<in>set v. \<not> isQuote x)
        \<and> map_option index (stringMatch optionsBlock bodyRegex) = Some (length pre)
      \<longrightarrow> annBody a = Some v)"
  (is "?bound \<longrightarrow> ?search \<and> (?shape \<longrightarrow> ?kept)")
proof (intro impI conjI)
  assume b: ?bound
  then show s: ?search
    unfolding parseHttpAnnotation_def
    by (auto split: if_splits dest: parseHttpAnnotationLoop_body)
  assume shape: ?shape
  then obtain m where m: "stringMatch optionsBlock bodyRegex = Some m" "index m = length pre"
    by auto
  from stringMatch_sound[OF m(1)] m(2) obtain caps rest where c:
    "matchHere bodyRegex (prevUnit None optionsBlock (length pre)) (drop (length pre) optionsBlock)
       = Some (caps, rest)" "groups m = caps"
    by auto
  from body_pair_matches[of ws1 ws2 q1 q2 v _ post] shape c have "groups m = [v]" by simp
  with s m(1) show ?kept by (simp add: group_def)
qed

text \<open>On \<open>bodyStarBlock\<close> the verb is \<open>POST\<close> and the selector \<open>*\<close> is kept as it
  is.\<close>

theorem body_selector_is_a_separate_search_witness:
  "parseHttpAnnotation bodyStarBlock
     = Some \<lparr>annMethod = POST, annPath = js ''/v1/users'', annBody = Some (js ''*'')\<rparr>
   \<and> stringMatch bodyStarBlock bodyRegex
     = Some \<lparr>index = 40, whole = js ''body: \"*\"'', groups = [js ''*'']\<rparr>"
proof -
  let ?a = "\<lparr>annMethod = POST, annPath = js ''/v1/users'', annBody = Some (js ''*'')\<rparr>"
  let ?pre = "js ''(google.api.http) = { post: \"/v1/users\" ''"
  have e: "parseHttpAnnotation bodyStarBlock = Some ?a"
    by (simp add: eval_defs bodyStarBlock_def)
  have m: "stringMatch bodyStarBlock bodyRegex
     = Some \<lparr>index = 40, whole = js ''body: \"*\"'', groups = [js ''*'']\<rparr>"
    by (simp add: eval_defs bodyStarBlock_def)
  have h: "bodyStarBlock = ?pre @ js ''body'' @ [] @ js '':'' @ js '' '' @ [34] @ js ''*'' @ [34] @ js '' }''
        \<and> (\<forall>x\<in>set []. isSpace x) \<and> (\<forall>x\<in>set (js '' ''). isSpace x) \<and> isQuote 34 \<and> isQuote 34
        \<and> js ''*'' \<noteq> [] \<and> (\<forall>x\<in>set (js ''*''). \<not> isQuote x)
        \<and> map_option index (stringMatch bodyStarBlock bodyRegex) = Some (length ?pre)"
    by (simp add: m) (simp add: js_def isSpace_def isQuote_def bodyStarBlock_def)
  note T = mp[OF body_selector_is_a_separate_search[of bodyStarBlock ?a ?pre "[]" "js '' ''" 34
      "js ''*''" 34 "js '' }''"] e]
  note v = mp[OF conjunct2[OF T] h]
  from conjunct1[OF T] v e m show ?thesis by simp
qed

text \<open>
  C7. \<open>parseProtoFiles\<close> is to return the results of \<open>parseProtoFile\<close> on the texts,
  joined in input order. What the code does on a text with more services than a call
  takes arguments: whatever the bound \<open>maxArguments\<close> of the engine is, on the text
  that declares the annotated service \<open>S\<close> \<open>maxArguments + 1\<close> times \<open>parseProtoFile\<close>
  returns all the services, and \<open>parseProtoFiles\<close> on the list holding that one text
  throws \<open>RangeError\<close> instead of returning them.
\<close>

theorem parseProtoFiles_throws_beyond_argument_limit:
  "parseProtoFile (manyServices (Suc maxArguments)) = Some (replicate (Suc maxArguments) serviceS)
   \<and> parseProtoFiles maxArguments [manyServices (Suc maxArguments)] = Some (Inl RangeError)"
  by (simp add: parseProtoFiles_def parseProtoFile_manyServices)

text \<open>
  C8. For every input text, \<open>parseProtoFile\<close> and the two scanning loops it composes
  (\<open>extractServices\<close>, \<open>extractMethods\<close>) return a list: the loops end, and nothing in
  them fails. The other extraction functions (\<open>extractPackageName\<close>,
  \<open>extractBracedContent\<close>, \<open>parseHttpAnnotation\<close>) are bounded scans with no failing
  step; absence is the empty string, the empty list or \<open>None\<close>.
\<close>

theorem parseProtoFile_never_raises:
  "(\<exists>services. parseProtoFile content = Some services)
   \<and> (\<exists>serviceMatches. extractServices content = Some serviceMatches)
   \<and> (\<exists>methods'. extractMethods serviceBody = Some methods')"
  using parseProtoFile_total extractServices_total extractMethods_total by blast

text \<open>
  C10. The verb keyword is matched with no word boundary: an options block with the marker
  and the key \<open>widget\<close>, which ends in \<open>get\<close>, and no verb pair of its own, is bound
  to \<open>GET\<close> with the path of that key. With the key spelt \<open>widxet\<close> there is no
  binding.
\<close>

theorem verb_keyword_matches_inside_a_longer_key:
  "parseHttpAnnotation (js ''option (google.api.http) = { widget: \"/x\" };'')
     = Some \<lparr>annMethod = GET, annPath = js ''/x'', annBody = None\<rparr>
   \<and> parseHttpAnnotation (js ''option (google.api.http) = { widxet: \"/x\" };'') = None"
  by (simp add: eval_defs)

end
